theory Spec2Isabelle
  imports Main "HOL-Library.Word"
begin

section \<open>JavaScript strings\<close>

text \<open>
  A JavaScript string is a sequence of UTF-16 code units.  The regular expressions of
  \<^verbatim>\<open>Diff.ts\<close> carry no flags, so every character class below tests one code unit.
\<close>

type_synonym jschar = "16 word"
type_synonym jsstring = "jschar list"

text \<open>String literals of the source, written as HOL strings.\<close>

definition js :: "string \<Rightarrow> jsstring" where
  "js s = map of_char s"

definition apostrophe :: jschar where
  "apostrophe = 0x27"

definition newline :: jschar where
  "newline = 0x0A"

text \<open>\<^verbatim>\<open>\w\<close> is \<^verbatim>\<open>[A-Za-z0-9_]\<close>; \<^verbatim>\<open>[^\W]\<close> is the same class, \<^verbatim>\<open>\W\<close> its complement.\<close>

definition is_word_char :: "jschar \<Rightarrow> bool" where
  "is_word_char c \<longleftrightarrow>
     (0x41 \<le> c \<and> c \<le> 0x5A) \<or> (0x61 \<le> c \<and> c \<le> 0x7A) \<or> (0x30 \<le> c \<and> c \<le> 0x39) \<or> c = 0x5F"

definition is_non_word_char :: "jschar \<Rightarrow> bool" where
  "is_non_word_char c \<longleftrightarrow> \<not> is_word_char c"

text \<open>The line terminators of ECMAScript: LF, CR, LS, PS.  The pattern \<^verbatim>\<open>.\<close> matches any
  code unit that is not one of them.\<close>

definition is_line_terminator :: "jschar \<Rightarrow> bool" where
  "is_line_terminator c \<longleftrightarrow> c = 0x0A \<or> c = 0x0D \<or> c = 0x2028 \<or> c = 0x2029"

definition is_dot_char :: "jschar \<Rightarrow> bool" where
  "is_dot_char c \<longleftrightarrow> \<not> is_line_terminator c"

text \<open>What \<^verbatim>\<open>String.prototype.trim\<close> strips: the WhiteSpace code points (TAB, VT, FF,
  the space separators, the byte order mark) and the line terminators.\<close>

definition is_white_space :: "jschar \<Rightarrow> bool" where
  "is_white_space c \<longleftrightarrow>
     c = 0x09 \<or> c = 0x0B \<or> c = 0x0C \<or> c = 0x20 \<or> c = 0xA0 \<or> c = 0x1680 \<or>
     (0x2000 \<le> c \<and> c \<le> 0x200A) \<or> c = 0x202F \<or> c = 0x205F \<or> c = 0x3000 \<or> c = 0xFEFF \<or>
     is_line_terminator c"

definition trim :: "jsstring \<Rightarrow> jsstring" where
  "trim s = rev (dropWhile is_white_space (rev (dropWhile is_white_space s)))"

text \<open>\<^verbatim>\<open>stdout.split('\n')\<close>: the pieces between line feeds; the empty string gives one
  empty piece, a trailing line feed gives a last empty piece.\<close>

fun split_lines :: "jsstring \<Rightarrow> jsstring list" where
  "split_lines [] = [Nil]"
| "split_lines (c # cs) =
     (if c = newline then [] # split_lines cs
      else (case split_lines cs of [] \<Rightarrow> [c] # [] | l # ls \<Rightarrow> (c # l) # ls))"

section \<open>The regular expressions of the source\<close>

text \<open>
  The two patterns of \<^verbatim>\<open>Diff.ts\<close> are sequences of literals, greedy repetitions of a
  character class (captured or not) and the end anchor.  A repetition first takes the
  longest run of its class and gives characters back one at a time, down to its minimum,
  until the rest of the pattern matches: the backtracking order of the JavaScript matcher.
\<close>

datatype rx_node =
    Lit jsstring
  | Greedy "jschar \<Rightarrow> bool" nat
  | Capture "jschar \<Rightarrow> bool" nat
  | Eos

fun first_some :: "('a \<Rightarrow> 'b option) \<Rightarrow> 'a list \<Rightarrow> 'b option" where
  "first_some f [] = None"
| "first_some f (x # xs) = (case f x of Some y \<Rightarrow> Some y | None \<Rightarrow> first_some f xs)"

text \<open>\<open>rx_from ns s\<close>: match the nodes \<open>ns\<close> at the start of \<open>s\<close>; the result lists the
  captured groups (\<^verbatim>\<open>match[1]\<close>, \<^verbatim>\<open>match[2]\<close>, ...).\<close>

fun rx_from :: "rx_node list \<Rightarrow> jsstring \<Rightarrow> jsstring list option" where
  "rx_from [] s = Some []"
| "rx_from (Lit l # ns) s =
     (if take (length l) s = l then rx_from ns (drop (length l) s) else None)"
| "rx_from (Greedy cls lo # ns) s =
     first_some (\<lambda>n. rx_from ns (drop n s)) (rev [lo..<Suc (length (takeWhile cls s))])"
| "rx_from (Capture cls lo # ns) s =
     first_some (\<lambda>n. map_option ((#) (take n s)) (rx_from ns (drop n s)))
       (rev [lo..<Suc (length (takeWhile cls s))])"
| "rx_from (Eos # ns) s = (if s = [] then rx_from ns s else None)"

text \<open>A pattern without \<^verbatim>\<open>^\<close> is tried at every position, leftmost first.\<close>

fun rx_exec :: "rx_node list \<Rightarrow> jsstring \<Rightarrow> jsstring list option" where
  "rx_exec ns [] = rx_from ns []"
| "rx_exec ns (c # cs) =
     (case rx_from ns (c # cs) of Some m \<Rightarrow> Some m | None \<Rightarrow> rx_exec ns cs)"

text \<open>\<^verbatim>\<open>/^([^\W]*)\W+(.*)$/\<close>, always tried at position 0 because of \<^verbatim>\<open>^\<close>.\<close>

definition line_rx :: "rx_node list" where
  "line_rx = [Capture is_word_char 0, Greedy is_non_word_char 1, Capture is_dot_char 0, Eos]"

text \<open>\<^verbatim>\<open>/fatal: bad revision '(.*)'/\<close>\<close>

definition bad_revision_rx :: "rx_node list" where
  "bad_revision_rx =
     [Lit (js ''fatal: bad revision '' @ [apostrophe]), Capture is_dot_char 0, Lit [apostrophe]]"

section \<open>Maps and the store\<close>

text \<open>
  A JavaScript \<^verbatim>\<open>Map\<close> keeps its entries in insertion order; \<^verbatim>\<open>set\<close> on a key that is
  present replaces the value where the key stands, \<^verbatim>\<open>set\<close> on a new key appends.
\<close>

type_synonym path = jsstring
type_synonym status = jsstring
type_synonym js_map = "(path \<times> status) list"

fun Map_set :: "path \<Rightarrow> status \<Rightarrow> js_map \<Rightarrow> js_map" where
  "Map_set k v [] = [(k, v)]"
| "Map_set k v ((k', v') # m) = (if k' = k then (k', v) # m else (k', v') # Map_set k v m)"

text \<open>\<^verbatim>\<open>new Map(iterable)\<close> calls \<^verbatim>\<open>set\<close> for each pair the iterable yields.\<close>

definition Map_from_iterable :: "(path \<times> status) list \<Rightarrow> js_map" where
  "Map_from_iterable xs = foldl (\<lambda>m (k, v). Map_set k v m) [] xs"

text \<open>
  Maps are objects: a variable holds a reference.  The store lists the maps allocated so
  far; a reference is an index into it, and \<^verbatim>\<open>new Map\<close> extends the store.
\<close>

type_synonym ref = nat
type_synonym store = "js_map list"

definition new_Map :: "store \<Rightarrow> js_map \<Rightarrow> store \<times> ref" where
  "new_Map h m = (h @ [m], length h)"

text \<open>\<^verbatim>\<open>map.set(k, v)\<close> on the map behind reference \<open>a\<close>.\<close>

definition store_set :: "store \<Rightarrow> ref \<Rightarrow> path \<Rightarrow> status \<Rightarrow> store" where
  "store_set h a k v = h[a := Map_set k v (h ! a)]"

section \<open>Status, toArray\<close>

definition Status_Added :: status where "Status_Added = js ''A''"
definition Status_Changed :: status where "Status_Changed = js ''C''"
definition Status_Deleted :: status where "Status_Deleted = js ''D''"
definition Status_Modified :: status where "Status_Modified = js ''M''"
definition Status_Renamed :: status where "Status_Renamed = js ''R''"
definition Status_Unknown :: status where "Status_Unknown = js ''X''"

text \<open>\<^verbatim>\<open>Path | Path[]\<close>\<close>

datatype path_or_paths = One path | Many "path list"

text \<open>\<^verbatim>\<open>Array.isArray(value) ? value : value ? [value] : []\<close>; the empty string is falsy.\<close>

fun toArray :: "path_or_paths \<Rightarrow> path list" where
  "toArray (Many ps) = ps"
| "toArray (One p) = (if p \<noteq> [] then [p] else [])"

section \<open>The class Diff\<close>

text \<open>The private field \<^verbatim>\<open>#diff\<close> holds a reference to a \<^verbatim>\<open>Map\<close>.\<close>

record Diff =
  diff_map :: ref

text \<open>The constructor's argument: absent, a \<^verbatim>\<open>Map\<close> (by reference), or any other iterable
  of pairs (as the finite sequence it yields).\<close>

datatype ctor_arg = Default | FromMap ref | FromIterable "(path \<times> status) list"

text \<open>\<^verbatim>\<open>this.#diff = diff instanceof Map ? diff : new Map(diff)\<close>, the default argument
  being \<^verbatim>\<open>new Map()\<close>.\<close>

fun Diff_new :: "store \<Rightarrow> ctor_arg \<Rightarrow> store \<times> Diff" where
  "Diff_new h Default = (case new_Map h [] of (h', a) \<Rightarrow> (h', \<lparr>diff_map = a\<rparr>))"
| "Diff_new h (FromMap a) = (h, \<lparr>diff_map = a\<rparr>)"
| "Diff_new h (FromIterable xs) =
     (case new_Map h (Map_from_iterable xs) of (h', a) \<Rightarrow> (h', \<lparr>diff_map = a\<rparr>))"

definition Diff_size :: "store \<Rightarrow> Diff \<Rightarrow> nat" where
  "Diff_size h d = length (h ! diff_map d)"

definition Diff_entries :: "store \<Rightarrow> Diff \<Rightarrow> (path \<times> status) list" where
  "Diff_entries h d = h ! diff_map d"

definition Diff_paths :: "store \<Rightarrow> Diff \<Rightarrow> path list" where
  "Diff_paths h d = map fst (h ! diff_map d)"

definition Diff_statuses :: "store \<Rightarrow> Diff \<Rightarrow> status list" where
  "Diff_statuses h d = map snd (h ! diff_map d)"

subsection \<open>filter and contains (the revision of the class in \<^verbatim>\<open>part_001\<close>)\<close>

text \<open>
  Modelled from the spec: the glob library (picomatch) is an external collaborator and is
  not part of the repository.  The functions below take the compiled tester
  \<open>glob :: path list \<Rightarrow> path \<Rightarrow> bool\<close> as a parameter.  Where a claim speaks of matching
  "at least one pattern", \<open>glob_any\<close> builds that tester from a tester \<open>pm\<close> for single
  patterns, as the spec describes the collaborator.  Compiling always yields a tester
  here; what the library does with a pattern it refuses is outside the model.
\<close>

definition glob_any :: "(path \<Rightarrow> path \<Rightarrow> bool) \<Rightarrow> path list \<Rightarrow> path \<Rightarrow> bool" where
  "glob_any pm pats p = list_ex (\<lambda>pat. pm pat p) pats"

record DiffFilterOptions =
  paths :: "path list option"
  statuses :: "status list option"

text \<open>The callback given to \<^verbatim>\<open>entries().filter\<close>.\<close>

definition filter_keeps ::
    "(path \<Rightarrow> bool) \<Rightarrow> DiffFilterOptions \<Rightarrow> path \<times> status \<Rightarrow> bool" where
  "filter_keeps matcher opts e =
     (case e of (path, status) \<Rightarrow>
        (if (case paths opts of Some _ \<Rightarrow> \<not> matcher path | None \<Rightarrow> False) then False
         else if (case statuses opts of Some sts \<Rightarrow> status \<notin> set sts | None \<Rightarrow> False) then False
         else True))"

definition Diff_filter ::
    "(path list \<Rightarrow> path \<Rightarrow> bool) \<Rightarrow> store \<Rightarrow> Diff \<Rightarrow> DiffFilterOptions \<Rightarrow> store \<times> Diff" where
  "Diff_filter glob h d opts =
     (let matcher = glob (case paths opts of Some ps \<Rightarrow> ps | None \<Rightarrow> [])
      in Diff_new h (FromIterable (filter (filter_keeps matcher opts) (Diff_entries h d))))"

definition Diff_contains ::
    "(path list \<Rightarrow> path \<Rightarrow> bool) \<Rightarrow> store \<Rightarrow> Diff \<Rightarrow> DiffFilterOptions \<Rightarrow> store \<times> bool" where
  "Diff_contains glob h d opts =
     (case Diff_filter glob h d opts of (h', r) \<Rightarrow> (h', Diff_size h' r > 0))"

subsection \<open>match (the revision of the class in \<^verbatim>\<open>Diff.ts\<close>)\<close>

text \<open>The object \<^verbatim>\<open>match\<close> returns closes over the map reference and the compiled tester;
  each getter scans the map when it is read.\<close>

record Match =
  match_diff :: ref
  matcher :: "path \<Rightarrow> bool"

definition Diff_match ::
    "(path list \<Rightarrow> path \<Rightarrow> bool) \<Rightarrow> Diff \<Rightarrow> path_or_paths \<Rightarrow> Match" where
  "Diff_match glob d pathOrPaths =
     \<lparr>match_diff = diff_map d, matcher = glob (toArray pathOrPaths)\<rparr>"

definition added :: "store \<Rightarrow> Match \<Rightarrow> bool" where
  "added h m = list_ex (\<lambda>(path, status). status = Status_Added \<and> matcher m path) (h ! match_diff m)"

definition changed :: "store \<Rightarrow> Match \<Rightarrow> bool" where
  "changed h m = list_ex (\<lambda>(path, status). status = Status_Changed \<and> matcher m path) (h ! match_diff m)"

definition deleted :: "store \<Rightarrow> Match \<Rightarrow> bool" where
  "deleted h m = list_ex (\<lambda>(path, status). status = Status_Deleted \<and> matcher m path) (h ! match_diff m)"

definition modified :: "store \<Rightarrow> Match \<Rightarrow> bool" where
  "modified h m = list_ex (\<lambda>(path, status). status = Status_Modified \<and> matcher m path) (h ! match_diff m)"

definition renamed :: "store \<Rightarrow> Match \<Rightarrow> bool" where
  "renamed h m = list_ex (\<lambda>(path, status). status = Status_Renamed \<and> matcher m path) (h ! match_diff m)"

definition unknown :: "store \<Rightarrow> Match \<Rightarrow> bool" where
  "unknown h m = list_ex (\<lambda>(path, status). status = Status_Unknown \<and> matcher m path) (h ! match_diff m)"

section \<open>Errors\<close>

text \<open>
  A thrown value: whether it is an instance of \<^verbatim>\<open>Error\<close>, and its own string
  properties in the order they were created.  A property that is absent reads as
  \<^verbatim>\<open>undefined\<close>.  (The engine's \<^verbatim>\<open>stack\<close> is not modelled.)
\<close>

record js_error =
  instance_of_Error :: bool
  props :: "(string \<times> jsstring) list"

definition get_prop :: "js_error \<Rightarrow> string \<Rightarrow> jsstring option" where
  "get_prop e k = map_of (props e) k"

text \<open>Assignment to a property: an own property keeps its place, a new one is added last.\<close>

fun obj_set :: "string \<Rightarrow> jsstring \<Rightarrow> (string \<times> jsstring) list \<Rightarrow> (string \<times> jsstring) list" where
  "obj_set k v [] = [(k, v)]"
| "obj_set k v ((k', v') # ps) = (if k' = k then (k', v) # ps else (k', v') # obj_set k v ps)"

definition set_prop :: "string \<Rightarrow> jsstring \<Rightarrow> js_error \<Rightarrow> js_error" where
  "set_prop k v e = e\<lparr>props := obj_set k v (props e)\<rparr>"

definition new_Error :: "jsstring \<Rightarrow> js_error" where
  "new_Error msg = \<lparr>instance_of_Error = True, props = [(''message'', msg)]\<rparr>"

definition errorName :: jsstring where
  "errorName = js ''GitDiffError''"

definition badRevisionErrorCode :: jsstring where
  "badRevisionErrorCode = js ''BAD_REVISION''"

text \<open>\<^verbatim>\<open>error instanceof Error && !!error.stderr\<close>; the empty string is falsy.\<close>

definition isErrorWithStderr :: "js_error \<Rightarrow> bool" where
  "isErrorWithStderr e \<longleftrightarrow>
     instance_of_Error e \<and> (case get_prop e ''stderr'' of Some s \<Rightarrow> s \<noteq> [] | None \<Rightarrow> False)"

text \<open>\<open>Some e'\<close>: the function throws \<open>e'\<close>; \<open>None\<close>: it returns.  The pattern has one
  group, so a match always carries \<^verbatim>\<open>match[1]\<close>.\<close>

definition throwGitDiffError :: "js_error \<Rightarrow> js_error option" where
  "throwGitDiffError e =
     (if isErrorWithStderr e then
        (case get_prop e ''stderr'' of
           None \<Rightarrow> None
         | Some stderr \<Rightarrow>
             (case rx_exec bad_revision_rx stderr of
                None \<Rightarrow> None
              | Some [] \<Rightarrow> None
              | Some (ref # _) \<Rightarrow>
                  Some (set_prop ''code'' badRevisionErrorCode
                         (set_prop ''name'' errorName
                           (new_Error (js ''The ref does not exist: '' @ ref))))))
      else None)"

section \<open>parse\<close>

text \<open>The body of the loop for a line that is not empty: \<open>Some (path, status)\<close> when the
  line is recorded with \<^verbatim>\<open>map.set(path, status)\<close>, \<open>None\<close> when control reaches the
  \<^verbatim>\<open>throw\<close>.\<close>

definition parse_line :: "jsstring \<Rightarrow> (path \<times> status) option" where
  "parse_line line =
     (case rx_from line_rx line of
        Some [g1, g2] \<Rightarrow>
          (let status = trim g1; path = trim g2
           in if status \<noteq> [] \<and> path \<noteq> [] then Some (path, status) else None)
      | _ \<Rightarrow> None)"

definition invalid_line_error :: "jsstring \<Rightarrow> js_error" where
  "invalid_line_error line = new_Error (js ''Invalid line in diff output: '' @ line)"

text \<open>The \<^verbatim>\<open>for\<close> loop over the lines, writing into the map behind \<open>a\<close>; the second
  component is the error thrown, if any.\<close>

fun parse_loop :: "store \<Rightarrow> ref \<Rightarrow> jsstring list \<Rightarrow> store \<times> js_error option" where
  "parse_loop h a [] = (h, None)"
| "parse_loop h a (line # ls) =
     (if line = [] then parse_loop h a ls
      else (case parse_line line of
              Some (path, status) \<Rightarrow> parse_loop (store_set h a path status) a ls
            | None \<Rightarrow> (h, Some (invalid_line_error line))))"

definition parse :: "store \<Rightarrow> jsstring \<Rightarrow> store \<times> (js_error + Diff)" where
  "parse h stdout =
     (case new_Map h [] of (h0, a) \<Rightarrow>
        (case parse_loop h0 a (split_lines stdout) of
           (h1, Some e) \<Rightarrow> (h1, Inl e)
         | (h1, None) \<Rightarrow> (case Diff_new h1 (FromMap a) of (h2, d) \<Rightarrow> (h2, Inr d))))"

section \<open>diffAsync and diffSync\<close>

text \<open>What running \<^verbatim>\<open>git diff --name-status\<close> gives: its standard output, or a thrown
  error.\<close>

datatype exec_result = Stdout jsstring | ExecError js_error

text \<open>The \<^verbatim>\<open>catch\<close> block: \<^verbatim>\<open>throwGitDiffError(error); throw error\<close>.\<close>

definition rethrow :: "js_error \<Rightarrow> js_error" where
  "rethrow e = (case throwGitDiffError e of Some e' \<Rightarrow> e' | None \<Rightarrow> e)"

definition diffAsync :: "store \<Rightarrow> exec_result \<Rightarrow> store \<times> (js_error + Diff)" where
  "diffAsync h r =
     (case r of
        ExecError e \<Rightarrow> (h, Inl (rethrow e))
      | Stdout out \<Rightarrow>
          (case parse h out of
             (h', Inl e) \<Rightarrow> (h', Inl (rethrow e))
           | (h', Inr d) \<Rightarrow> (h', Inr d)))"

definition diffSync :: "store \<Rightarrow> exec_result \<Rightarrow> store \<times> (js_error + Diff)" where
  "diffSync h r =
     (case r of
        ExecError e \<Rightarrow> (h, Inl (rethrow e))
      | Stdout out \<Rightarrow>
          (case parse h out of
             (h', Inl e) \<Rightarrow> (h', Inl (rethrow e))
           | (h', Inr d) \<Rightarrow> (h', Inr d)))"

section \<open>Notions used in the statements\<close>

text \<open>A line that reaches the \<^verbatim>\<open>throw\<close> of the loop: it is not empty and nothing is
  recorded for it.\<close>

definition offending :: "jsstring \<Rightarrow> bool" where
  "offending l \<longleftrightarrow> l \<noteq> [] \<and> parse_line l = None"

text \<open>The pairs handed to \<^verbatim>\<open>map.set\<close>, in line order.\<close>

definition recorded :: "jsstring \<Rightarrow> (path \<times> status) list" where
  "recorded stdout = List.map_filter parse_line (split_lines stdout)"

definition non_blank_lines :: "jsstring \<Rightarrow> jsstring list" where
  "non_blank_lines stdout = filter (\<lambda>l. l \<noteq> []) (split_lines stdout)"

text \<open>A Diff whose reference points into the store, at a map with unique keys (as every
  JavaScript \<^verbatim>\<open>Map\<close> has).\<close>

definition valid_Diff :: "store \<Rightarrow> Diff \<Rightarrow> bool" where
  "valid_Diff h d \<longleftrightarrow> diff_map d < length h \<and> distinct (map fst (h ! diff_map d))"

text \<open>The error the tests of \<^verbatim>\<open>diffAsync\<close> and \<^verbatim>\<open>diffSync\<close> expect for a bad revision:
  name, code and message, the reference standing in the message only.\<close>

definition GitDiffError :: "jsstring \<Rightarrow> js_error" where
  "GitDiffError ref =
     \<lparr>instance_of_Error = True,
      props = [(''message'', js ''The ref does not exist: '' @ ref),
               (''name'', js ''GitDiffError''), (''code'', js ''BAD_REVISION'')]\<rparr>"

section \<open>The matcher on the two patterns\<close>

lemma first_some_None_iff: "first_some f xs = None \<longleftrightarrow> (\<forall>x\<in>set xs. f x = None)"
  by (induction xs) (auto split: option.splits)

lemma first_some_head: "(\<forall>x\<in>set xs. f x = None) \<Longrightarrow> first_some f (x # xs) = f x"
  by (simp add: first_some_None_iff split: option.splits)

lemma length_takeWhile_full: "length (takeWhile P xs) = length xs \<longleftrightarrow> list_all P xs"
  by (induction xs) auto

lemma rx_eos: "rx_from [Eos] s = (if s = [] then Some [] else None)"
  by simp

declare rx_from.simps(3,4) [simp del]

lemma rx_capture_unfold:
  "rx_from (Capture cls lo # ns) s =
     first_some (\<lambda>n. map_option ((#) (take n s)) (rx_from ns (drop n s)))
       (rev [lo..<Suc (length (takeWhile cls s))])"
  by (rule rx_from.simps)

lemma rx_greedy_unfold:
  "rx_from (Greedy cls lo # ns) s =
     first_some (\<lambda>n. rx_from ns (drop n s)) (rev [lo..<Suc (length (takeWhile cls s))])"
  by (rule rx_from.simps)

lemma rx_dot_eos:
  "rx_from [Capture cls 0, Eos] t = (if list_all cls t then Some [t] else None)"
proof (cases "list_all cls t")
  case True
  then have tw: "length (takeWhile cls t) = length t" by (simp add: length_takeWhile_full)
  show ?thesis unfolding rx_capture_unfold tw using True by simp
next
  case False
  have "length (takeWhile cls t) \<le> length t" by (rule length_takeWhile_le)
  with False have lt: "length (takeWhile cls t) < length t"
    using length_takeWhile_full[of cls t] by linarith
  have "first_some (\<lambda>n. map_option ((#) (take n t)) (rx_from [Eos] (drop n t)))
          (rev [0..<Suc (length (takeWhile cls t))]) = None"
    unfolding first_some_None_iff rx_eos using lt by auto
  then show ?thesis unfolding rx_capture_unfold using False by simp
qed

lemma rx_sep_rest:
  "rx_from [Greedy cls (Suc 0), Capture d 0, Eos] r =
     (if takeWhile cls r \<noteq> [] \<and> list_all d (dropWhile cls r) then Some [dropWhile cls r] else None)"
proof -
  let ?m = "length (takeWhile cls r)"
  let ?f = "\<lambda>n. rx_from [Capture d 0, Eos] (drop n r)"
  have dm: "drop ?m r = dropWhile cls r" by (simp add: dropWhile_eq_drop)
  show ?thesis
  proof (cases "?m = 0")
    case True
    then have tw: "takeWhile cls r = []" by simp
    show ?thesis unfolding rx_greedy_unfold tw by simp
  next
    case False
    then have "Suc 0 \<le> ?m" by arith
    then have up: "rev [Suc 0..<Suc ?m] = ?m # rev [Suc 0..<?m]" by simp
    show ?thesis
    proof (cases "list_all d (dropWhile cls r)")
      case True
      then have "?f ?m = Some [dropWhile cls r]" by (simp add: rx_dot_eos dm)
      then show ?thesis unfolding rx_greedy_unfold up using True False by simp
    next
      case nd: False
      have "\<forall>n\<in>set (rev [Suc 0..<Suc ?m]). ?f n = None"
      proof
        fix n assume "n \<in> set (rev [Suc 0..<Suc ?m])"
        then have "n \<le> ?m" by auto
        then have "drop ?m r = drop (?m - n) (drop n r)" by simp
        then have "set (dropWhile cls r) \<subseteq> set (drop n r)"
          using dm set_drop_subset by metis
        with nd have "\<not> list_all d (drop n r)" by (auto simp: list_all_iff)
        then show "?f n = None" by (simp add: rx_dot_eos)
      qed
      then have "first_some ?f (rev [Suc 0..<Suc ?m]) = None"
        by (simp only: first_some_None_iff)
      then show ?thesis unfolding rx_greedy_unfold using nd by simp
    qed
  qed
qed

lemma rx_line:
  "rx_from line_rx s =
     (if takeWhile is_non_word_char (dropWhile is_word_char s) \<noteq> [] \<and>
         list_all is_dot_char (dropWhile is_non_word_char (dropWhile is_word_char s))
      then Some [takeWhile is_word_char s, dropWhile is_non_word_char (dropWhile is_word_char s)]
      else None)"
proof -
  let ?k = "length (takeWhile is_word_char s)"
  let ?g = "rx_from [Greedy is_non_word_char (Suc 0), Capture is_dot_char 0, Eos]"
  let ?f = "\<lambda>n. map_option ((#) (take n s)) (?g (drop n s))"
  have up: "rev [0..<Suc ?k] = ?k # rev [0..<?k]" by simp
  have below: "\<forall>n\<in>set (rev [0..<?k]). ?f n = None"
  proof
    fix n assume "n \<in> set (rev [0..<?k])"
    then have n: "n < ?k" by auto
    have "?k \<le> length s" by (rule length_takeWhile_le)
    with n have nl: "n < length s" by simp
    have "takeWhile is_word_char s ! n \<in> set (takeWhile is_word_char s)" using n by simp
    then have "is_word_char (takeWhile is_word_char s ! n)" by (rule set_takeWhileD[THEN conjunct2])
    then have w: "is_word_char (s ! n)" using n by (simp add: takeWhile_nth)
    have "drop n s = s ! n # drop (Suc n) s" using nl by (simp add: Cons_nth_drop_Suc)
    then have "takeWhile is_non_word_char (drop n s) = []"
      using w by (simp add: is_non_word_char_def)
    then show "?f n = None" by (simp add: rx_sep_rest)
  qed
  have "rx_from line_rx s = first_some ?f (rev [0..<Suc ?k])"
    unfolding line_rx_def rx_capture_unfold One_nat_def by (rule refl)
  also have "\<dots> = ?f ?k" unfolding up using below by (rule first_some_head)
  also have "\<dots> = map_option ((#) (takeWhile is_word_char s)) (?g (dropWhile is_word_char s))"
    by (simp add: takeWhile_eq_take[symmetric] dropWhile_eq_drop[symmetric])
  finally show ?thesis by (simp add: rx_sep_rest)
qed

section \<open>Lines\<close>

lemma white_space_non_word: "is_white_space c \<Longrightarrow> \<not> is_word_char c"
  unfolding is_white_space_def is_line_terminator_def is_word_char_def
  by (auto simp: word_le_nat_alt)

lemma dropWhile_id: "xs = [] \<or> \<not> P (hd xs) \<Longrightarrow> dropWhile P xs = xs"
  by (cases xs) auto

lemma trim_word_run: "list_all is_word_char w \<Longrightarrow> trim w = w"
proof -
  assume a: "list_all is_word_char w"
  have 1: "dropWhile is_white_space w = w"
    using a by (intro dropWhile_id) (cases w; auto dest: white_space_non_word)
  have "list_all is_word_char (rev w)" using a by (simp add: list_all_iff)
  then have 2: "dropWhile is_white_space (rev w) = rev w"
    by (intro dropWhile_id) (cases "rev w"; auto dest: white_space_non_word)
  show ?thesis by (simp add: trim_def 1 2)
qed

lemma all_dropWhile: "(\<forall>x\<in>set (dropWhile P s). P x) \<longleftrightarrow> list_all P s"
  by (induction s) auto

lemma trim_eq_Nil: "trim s = [] \<longleftrightarrow> list_all is_white_space s"
  by (simp add: trim_def dropWhile_eq_Nil_conv all_dropWhile)

lemma parse_line_eq:
  "parse_line line =
     (if takeWhile is_word_char line \<noteq> [] \<and>
         takeWhile is_non_word_char (dropWhile is_word_char line) \<noteq> [] \<and>
         list_all is_dot_char (dropWhile is_non_word_char (dropWhile is_word_char line)) \<and>
         \<not> list_all is_white_space (dropWhile is_non_word_char (dropWhile is_word_char line))
      then Some (trim (dropWhile is_non_word_char (dropWhile is_word_char line)),
                 takeWhile is_word_char line)
      else None)"
proof -
  have "list_all is_word_char (takeWhile is_word_char line)"
    by (auto simp: list_all_iff dest: set_takeWhileD)
  then have tw: "trim (takeWhile is_word_char line) = takeWhile is_word_char line"
    by (rule trim_word_run)
  show ?thesis
    unfolding parse_line_def rx_line by (simp add: tw trim_eq_Nil Let_def)
qed

lemma parse_line_Nil: "parse_line [] = None"
  by (simp add: parse_line_eq)

lemma parse_line_form:
  assumes "st \<noteq> []" "list_all is_word_char st"
      and "sep \<noteq> []" "list_all is_non_word_char sep"
      and "p = [] \<or> is_word_char (hd p)" "list_all is_dot_char p"
  shows "parse_line (st @ sep @ p) = (if p = [] then None else Some (trim p, st))"
proof -
  have hs: "\<not> is_word_char (hd sep)" using assms(3,4) by (cases sep) (auto simp: is_non_word_char_def)
  have tw: "takeWhile is_word_char (st @ sep @ p) = st"
    using assms(2,3) hs by (cases sep) (auto simp: list_all_iff takeWhile_append2)
  have dw: "dropWhile is_word_char (st @ sep @ p) = sep @ p"
    using assms(2,3) hs by (cases sep) (auto simp: list_all_iff dropWhile_append2)
  have tn: "takeWhile is_non_word_char (sep @ p) = sep"
    using assms(4,5) by (cases p) (auto simp: list_all_iff is_non_word_char_def)
  have dn: "dropWhile is_non_word_char (sep @ p) = p"
    using assms(4,5) by (cases p) (auto simp: list_all_iff is_non_word_char_def)
  have nw: "p \<noteq> [] \<Longrightarrow> \<not> list_all is_white_space p"
    using assms(5) by (cases p) (auto dest: white_space_non_word)
  show ?thesis
    unfolding parse_line_eq tw dw tn dn using assms(1,3,6) nw by auto
qed

section \<open>Maps\<close>

lemma Map_set_keys:
  "map fst (Map_set k v m) = (if k \<in> set (map fst m) then map fst m else map fst m @ [k])"
  by (induction m) (force+)

lemma map_of_Map_set: "map_of (Map_set k v m) = (map_of m)(k \<mapsto> v)"
  by (induction m) (auto simp: fun_eq_iff)

lemma Map_set_fresh: "k \<notin> set (map fst m) \<Longrightarrow> Map_set k v m = m @ [(k, v)]"
  by (induction m) auto

lemma Map_from_iterable_snoc:
  "Map_from_iterable (xs @ [(k, v)]) = Map_set k v (Map_from_iterable xs)"
  by (simp add: Map_from_iterable_def)

lemma Map_from_iterable_keys:
  "map fst (Map_from_iterable xs) = rev (remdups (rev (map fst xs)))"
proof (induction xs rule: rev_induct)
  case Nil
  show ?case by (simp add: Map_from_iterable_def)
next
  case (snoc x xs)
  obtain k v where x: "x = (k, v)" by (cases x)
  have "set (rev (remdups (rev (map fst xs)))) = set (map fst xs)" by simp
  then show ?case
    unfolding x Map_from_iterable_snoc Map_set_keys snoc.IH by simp
qed

lemma Map_from_iterable_distinct: "distinct (map fst (Map_from_iterable xs))"
  by (simp add: Map_from_iterable_keys)

lemma Map_from_iterable_map_of: "map_of (Map_from_iterable xs) = map_of (rev xs)"
proof (induction xs rule: rev_induct)
  case Nil
  show ?case by (simp add: Map_from_iterable_def)
next
  case (snoc x xs)
  obtain k v where x: "x = (k, v)" by (cases x)
  show ?case unfolding x Map_from_iterable_snoc map_of_Map_set snoc.IH by simp
qed

lemma foldl_Map_set_distinct:
  "distinct (map fst (acc @ xs)) \<Longrightarrow> foldl (\<lambda>m (k, v). Map_set k v m) acc xs = acc @ xs"
proof (induction xs arbitrary: acc)
  case Nil
  show ?case by simp
next
  case (Cons x xs)
  obtain k v where x: "x = (k, v)" by (cases x)
  from Cons.prems have fresh: "k \<notin> set (map fst acc)" by (auto simp: x)
  from Cons.prems have "distinct (map fst ((acc @ [(k, v)]) @ xs))" by (simp add: x)
  from Cons.IH[OF this] show ?case by (simp add: x Map_set_fresh[OF fresh])
qed

lemma Map_from_iterable_id: "distinct (map fst xs) \<Longrightarrow> Map_from_iterable xs = xs"
  using foldl_Map_set_distinct[of "[]" xs] by (simp add: Map_from_iterable_def)

lemma Map_from_iterable_length:
  "length (Map_from_iterable xs) = card (set (map fst xs))"
proof -
  have "length (Map_from_iterable xs) = length (map fst (Map_from_iterable xs))" by simp
  also have "\<dots> = length (remdups (rev (map fst xs)))" by (simp only: Map_from_iterable_keys length_rev)
  also have "\<dots> = card (set (rev (map fst xs)))" by (simp only: length_remdups_card_conv)
  finally show ?thesis by simp
qed

subsection \<open>The loop of parse\<close>

lemma parse_loop_error:
  "snd (parse_loop h a ls) =
     map_option invalid_line_error (List.find (\<lambda>l. l \<noteq> [] \<and> parse_line l = None) ls)"
  by (induction ls arbitrary: h) (auto split: option.splits)

lemma store_set_same: "a < length h \<Longrightarrow> store_set h a k v ! a = Map_set k v (h ! a)"
  by (simp add: store_set_def)

lemma parse_loop_store:
  "List.find (\<lambda>l. l \<noteq> [] \<and> parse_line l = None) ls = None \<Longrightarrow> a < length h \<Longrightarrow>
   fst (parse_loop h a ls) =
     h[a := foldl (\<lambda>m (k, v). Map_set k v m) (h ! a) (List.map_filter parse_line ls)]"
proof (induction ls arbitrary: h)
  case Nil
  show ?case by (simp add: List.map_filter_simps)
next
  case (Cons l ls)
  show ?case
  proof (cases "l = []")
    case True
    with Cons show ?thesis by (simp add: List.map_filter_simps parse_line_Nil)
  next
    case False
    with Cons.prems obtain p s where ps: "parse_line l = Some (p, s)"
      by (cases "parse_line l") (auto split: if_splits)
    from Cons.prems False ps have nf: "List.find (\<lambda>l. l \<noteq> [] \<and> parse_line l = None) ls = None"
      by simp
    have len: "a < length (store_set h a p s)" using Cons.prems by (simp add: store_set_def)
    show ?thesis
      using Cons.IH[OF nf len] False ps Cons.prems(2)
      by (simp add: List.map_filter_simps store_set_def)
  qed
qed

lemma parse_result:
  "snd (parse h stdout) =
     (case List.find (\<lambda>l. l \<noteq> [] \<and> parse_line l = None) (split_lines stdout) of
        Some l \<Rightarrow> Inl (invalid_line_error l)
      | None \<Rightarrow> Inr \<lparr>diff_map = length h\<rparr>)"
proof -
  have "snd (parse_loop (h @ [Nil]) (length h) (split_lines stdout)) =
     map_option invalid_line_error (List.find (\<lambda>l. l \<noteq> [] \<and> parse_line l = None) (split_lines stdout))"
    by (rule parse_loop_error)
  then show ?thesis
    by (cases "parse_loop (h @ [Nil]) (length h) (split_lines stdout)")
       (auto simp: parse_def new_Map_def split: option.splits)
qed

lemma parse_store:
  assumes "List.find (\<lambda>l. l \<noteq> [] \<and> parse_line l = None) (split_lines stdout) = None"
  shows "fst (parse h stdout) = h @ [Map_from_iterable (List.map_filter parse_line (split_lines stdout))]"
proof -
  have "fst (parse_loop (h @ [Nil]) (length h) (split_lines stdout)) =
          h @ [Map_from_iterable (List.map_filter parse_line (split_lines stdout))]"
    using parse_loop_store[OF assms, of "length h" "h @ [Nil]"]
    by (simp add: Map_from_iterable_def)
  moreover have "snd (parse_loop (h @ [Nil]) (length h) (split_lines stdout)) = None"
    by (simp add: parse_loop_error assms)
  ultimately show ?thesis
    by (cases "parse_loop (h @ [Nil]) (length h) (split_lines stdout)")
       (auto simp: parse_def new_Map_def)
qed

lemma parse_Inr:
  assumes "parse h stdout = (h', Inr d)"
  shows "List.find (\<lambda>l. l \<noteq> [] \<and> parse_line l = None) (split_lines stdout) = None"
    and "d = \<lparr>diff_map = length h\<rparr>"
    and "h' = h @ [Map_from_iterable (List.map_filter parse_line (split_lines stdout))]"
proof -
  from assms have s: "snd (parse h stdout) = Inr d" and f: "fst (parse h stdout) = h'" by simp_all
  from s show nf: "List.find (\<lambda>l. l \<noteq> [] \<and> parse_line l = None) (split_lines stdout) = None"
    unfolding parse_result by (auto split: option.splits)
  from s nf show "d = \<lparr>diff_map = length h\<rparr>" unfolding parse_result by simp
  from f parse_store[OF nf, of h] show "h' = h @ [Map_from_iterable (List.map_filter parse_line (split_lines stdout))]"
    by simp
qed

lemma split_lines_single: "newline \<notin> set l \<Longrightarrow> split_lines l = [l]"
  by (induction l) auto

lemma find_first:
  "\<forall>y\<in>set ys. \<not> P y \<Longrightarrow> P x \<Longrightarrow> List.find P (ys @ x # zs) = Some x"
  by (induction ys) auto

lemma parse_first_offending:
  assumes "split_lines stdout = pre @ bad # post"
      and "\<forall>x\<in>set pre. \<not> offending x" "offending bad"
  shows "snd (parse h stdout) = Inl (invalid_line_error bad)"
proof -
  have "List.find offending (pre @ bad # post) = Some bad"
    using assms(2,3) by (rule find_first)
  then have "List.find (\<lambda>l. l \<noteq> [] \<and> parse_line l = None) (split_lines stdout) = Some bad"
    by (simp add: assms(1) offending_def[abs_def])
  then show ?thesis by (simp add: parse_result)
qed

lemma parse_no_offending:
  assumes "\<forall>x\<in>set (split_lines stdout). \<not> offending x"
  shows "parse h stdout = (h @ [Map_from_iterable (recorded stdout)], Inr \<lparr>diff_map = length h\<rparr>)"
proof -
  have nf: "List.find (\<lambda>l. l \<noteq> [] \<and> parse_line l = None) (split_lines stdout) = None"
    using assms by (simp add: find_None_iff offending_def)
  have "snd (parse h stdout) = Inr \<lparr>diff_map = length h\<rparr>" by (simp add: parse_result nf)
  moreover have "fst (parse h stdout) = h @ [Map_from_iterable (recorded stdout)]"
    by (simp add: parse_store[OF nf] recorded_def)
  ultimately show ?thesis by (cases "parse h stdout") simp
qed

lemma message_invalid_line:
  "get_prop (invalid_line_error l) ''message'' = Some (js ''Invalid line in diff output: '' @ l)"
  by (simp add: invalid_line_error_def new_Error_def get_prop_def)

text \<open>Two consequences of the pattern: the separator \<^verbatim>\<open>\W+\<close> also takes the non-word
  characters that begin a path, and a carriage return at the end of a line makes the
  pattern fail, since \<^verbatim>\<open>.\<close> does not match it.\<close>

lemma parse_line_leading_dot:
  "parse_line (js ''M'' @ [0x09] @ js ''.gitignore'') = Some (js ''gitignore'', js ''M'')"
  by code_simp

lemma parse_line_carriage_return: "parse_line (js ''A foo'' @ [0x0D]) = None"
  by code_simp

subsection \<open>Lines of the text\<close>

lemma dot_char_not_newline: "is_dot_char c \<Longrightarrow> c \<noteq> newline"
  by (auto simp: is_dot_char_def is_line_terminator_def newline_def)

lemma word_char_not_newline: "is_word_char c \<Longrightarrow> c \<noteq> newline"
  by (auto simp: is_word_char_def newline_def)

lemma Map_from_iterable_single: "Map_from_iterable [(k, v)] = [(k, v)]"
  by (simp add: Map_from_iterable_def)

lemma recorded_length:
  assumes "\<forall>x\<in>set (split_lines stdout). \<not> offending x"
  shows "length (recorded stdout) = length (non_blank_lines stdout)"
proof -
  have "filter (\<lambda>x. parse_line x \<noteq> None) (split_lines stdout) =
        filter (\<lambda>l. l \<noteq> []) (split_lines stdout)"
    using assms by (intro filter_cong refl) (auto simp: offending_def parse_line_Nil)
  then show ?thesis
    by (simp add: recorded_def non_blank_lines_def List.map_filter_def)
qed

lemma parse_Inr_no_offending:
  assumes "parse h stdout = (h', Inr d)"
  shows "\<forall>x\<in>set (split_lines stdout). \<not> offending x"
  using parse_Inr(1)[OF assms] by (simp add: find_None_iff offending_def)

lemma parse_Inr_store:
  assumes "parse h stdout = (h', Inr d)"
  shows "h' = h @ [Map_from_iterable (recorded stdout)]" and "diff_map d = length h"
  using parse_Inr(2,3)[OF assms] by (simp_all add: recorded_def)

lemma entries_last_write:
  assumes "(p, s) \<in> set (Map_from_iterable xs)"
  shows "map_of (rev xs) p = Some s"
proof -
  have "map_of (Map_from_iterable xs) p = Some s"
    using assms Map_from_iterable_distinct[of xs] by (simp add: map_of_eq_Some_iff)
  then show ?thesis by (simp add: Map_from_iterable_map_of)
qed

subsection \<open>filter and match\<close>

lemma filter_keeps_eq:
  "filter_keeps (glob_any pm (case paths opts of Some ps \<Rightarrow> ps | None \<Rightarrow> [])) opts (p, s) \<longleftrightarrow>
     (case paths opts of None \<Rightarrow> True | Some pats \<Rightarrow> \<exists>pat\<in>set pats. pm pat p) \<and>
     (case statuses opts of None \<Rightarrow> True | Some sts \<Rightarrow> s \<in> set sts)"
  by (simp add: filter_keeps_def glob_any_def list_ex_iff split: option.splits)

lemma list_ex_case_prod: "list_ex (\<lambda>(p, s). P p s) xs \<longleftrightarrow> (\<exists>(p, s)\<in>set xs. P p s)"
  by (simp add: list_ex_iff)

subsection \<open>The pattern for a bad revision\<close>

lemma first_some_append_None:
  "\<forall>x\<in>set xs. f x = None \<Longrightarrow> first_some f (xs @ ys) = first_some f ys"
  by (induction xs) auto

lemma first_some_SomeD: "first_some f xs = Some y \<Longrightarrow> \<exists>x\<in>set xs. f x = Some y"
  by (induction xs) (auto split: option.splits)

lemma first_some_rev_upt:
  assumes "lo \<le> n" and "n \<le> k" and "\<forall>j. n < j \<and> j \<le> k \<longrightarrow> f j = None" and "f n = Some y"
  shows "first_some f (rev [lo..<Suc k]) = Some y"
proof -
  obtain d where d: "Suc k = n + d" using assms(2) by (metis le_Suc_ex le_SucI)
  have "[lo..<n + d] = [lo..<n] @ [n..<n + d]" using assms(1) by (rule upt_add_eq_append)
  moreover have "[n..<Suc k] = n # [Suc n..<Suc k]" using assms(2) by (simp add: upt_conv_Cons)
  ultimately have "[lo..<Suc k] = [lo..<n] @ n # [Suc n..<Suc k]" by (simp add: d[symmetric])
  then have "rev [lo..<Suc k] = rev [Suc n..<Suc k] @ n # rev [lo..<n]" by simp
  moreover have "\<forall>x\<in>set (rev [Suc n..<Suc k]). f x = None" using assms(3) by auto
  ultimately show ?thesis using assms(4) by (simp add: first_some_append_None)
qed

lemma rx_lit_apostrophe:
  "rx_from [Lit [apostrophe]] u = (if take 1 u = [apostrophe] then Some [] else None)"
  by simp

lemma rx_quoted:
  assumes "list_all is_dot_char ref" and "apostrophe \<notin> set (takeWhile is_dot_char post)"
  shows "rx_from [Capture is_dot_char 0, Lit [apostrophe]] (ref @ [apostrophe] @ post) = Some [ref]"
proof -
  let ?t = "ref @ [apostrophe] @ post"
  let ?k = "length (takeWhile is_dot_char ?t)"
  let ?f = "\<lambda>n. map_option ((#) (take n ?t)) (rx_from [Lit [apostrophe]] (drop n ?t))"
  have ad: "is_dot_char apostrophe"
    by (simp add: is_dot_char_def is_line_terminator_def apostrophe_def)
  have tw: "takeWhile is_dot_char ?t = ref @ apostrophe # takeWhile is_dot_char post"
    using assms(1) ad by (simp add: list_all_iff takeWhile_append2)
  have k: "?k = length ref + 1 + length (takeWhile is_dot_char post)" by (simp only: tw) simp
  have fn: "?f (length ref) = Some [ref]" by simp
  have above: "\<forall>j. length ref < j \<and> j \<le> ?k \<longrightarrow> ?f j = None"
  proof (intro allI impI)
    fix j assume j: "length ref < j \<and> j \<le> ?k"
    define i where "i = j - length ref - 1"
    have i: "i \<le> length (takeWhile is_dot_char post)" and ji: "j = length ref + 1 + i"
      using j k unfolding i_def by linarith+
    have dr: "drop j ?t = drop i post" by (simp add: ji)
    have "take 1 (drop i post) \<noteq> [apostrophe]"
    proof
      assume eq: "take 1 (drop i post) = [apostrophe]"
      then have il: "i < length post" by (cases "i < length post") auto
      with eq have pi: "post ! i = apostrophe"
        by (simp add: take_Suc_conv_app_nth[of 0] hd_drop_conv_nth Cons_nth_drop_Suc[symmetric])
      show False
      proof (cases "i < length (takeWhile is_dot_char post)")
        case True
        then have "takeWhile is_dot_char post ! i \<in> set (takeWhile is_dot_char post)" by simp
        then have "post ! i \<in> set (takeWhile is_dot_char post)"
          using True by (simp add: takeWhile_nth)
        with pi assms(2) show False by simp
      next
        case False
        with i have "i = length (takeWhile is_dot_char post)" by simp
        with il have "\<not> is_dot_char (post ! i)" by (simp add: nth_length_takeWhile)
        with pi ad show False by simp
      qed
    qed
    then show "?f j = None" by (simp only: dr rx_lit_apostrophe) simp
  qed
  have "first_some ?f (rev [0..<Suc ?k]) = Some [ref]"
    by (rule first_some_rev_upt[where n = "length ref"]) (use k above fn in simp_all)
  then show ?thesis by (simp only: rx_capture_unfold)
qed

lemma bad_revision_rx_unfold:
  "rx_from bad_revision_rx s =
     (if take (length (js ''fatal: bad revision '' @ [apostrophe])) s = js ''fatal: bad revision '' @ [apostrophe]
      then rx_from [Capture is_dot_char 0, Lit [apostrophe]]
             (drop (length (js ''fatal: bad revision '' @ [apostrophe])) s)
      else None)"
  unfolding bad_revision_rx_def by (rule rx_from.simps)

lemma bad_revision_extract:
  assumes "list_all is_dot_char ref" and "apostrophe \<notin> set (takeWhile is_dot_char post)"
  shows "rx_exec bad_revision_rx
           (js ''fatal: bad revision '' @ [apostrophe] @ ref @ [apostrophe] @ post) = Some [ref]"
proof -
  define lit where "lit = js ''fatal: bad revision '' @ [apostrophe]"
  let ?t = "ref @ [apostrophe] @ post"
  have "rx_from bad_revision_rx (lit @ ?t) = rx_from [Capture is_dot_char 0, Lit [apostrophe]] ?t"
    unfolding bad_revision_rx_unfold lit_def[symmetric] by simp
  then have m: "rx_from bad_revision_rx (lit @ ?t) = Some [ref]"
    using rx_quoted[OF assms] by simp
  have "lit \<noteq> []" by (simp add: lit_def)
  then obtain c cs where cs: "lit @ ?t = c # cs" by (cases lit) auto
  have "rx_exec bad_revision_rx (lit @ ?t) = Some [ref]"
    unfolding cs using m[unfolded cs] by simp
  then show ?thesis by (simp add: lit_def)
qed

lemma literal_no_apostrophe: "apostrophe \<notin> set (js ''fatal: bad revision '')"
  by code_simp

lemma literal_length: "length (js ''fatal: bad revision '') = 20"
  by (simp add: js_def)

lemma no_apostrophe_at_20:
  assumes "xs \<noteq> []" and "apostrophe \<notin> set xs"
  shows "(xs @ js ''fatal: bad revision '' @ apostrophe # t) ! 20 \<noteq> apostrophe"
proof (cases "20 < length xs")
  case True
  then have "(xs @ js ''fatal: bad revision '' @ apostrophe # t) ! 20 = xs ! 20"
    by (simp add: nth_append)
  moreover have "xs ! 20 \<in> set xs" using True by simp
  ultimately show ?thesis using assms(2) by metis
next
  case False
  define k where "k = 20 - length xs"
  have k: "k < 20" using assms(1) False by (cases xs) (simp_all add: k_def)
  have "(xs @ js ''fatal: bad revision '' @ apostrophe # t) ! 20 =
        (js ''fatal: bad revision '' @ apostrophe # t) ! k"
    using False by (simp add: nth_append k_def)
  also have "\<dots> = js ''fatal: bad revision '' ! k"
    using k by (simp add: nth_append literal_length)
  finally have "(xs @ js ''fatal: bad revision '' @ apostrophe # t) ! 20 \<in> set (js ''fatal: bad revision '')"
    using k by (simp add: literal_length)
  then show ?thesis using literal_no_apostrophe by metis
qed

lemma bad_revision_not_in_prefix:
  assumes "xs \<noteq> []" and "apostrophe \<notin> set xs"
  shows "rx_from bad_revision_rx (xs @ js ''fatal: bad revision '' @ apostrophe # t) = None"
proof -
  let ?s = "xs @ js ''fatal: bad revision '' @ apostrophe # t"
  let ?lit = "js ''fatal: bad revision '' @ [apostrophe]"
  have len: "length ?lit = 21" by (simp add: literal_length)
  have "take (length ?lit) ?s \<noteq> ?lit"
  proof
    assume eq: "take (length ?lit) ?s = ?lit"
    have "take (length ?lit) ?s ! 20 = ?s ! 20" unfolding len by (rule nth_take) simp
    moreover have "?lit ! 20 = apostrophe" by (simp add: nth_append literal_length)
    ultimately have "?s ! 20 = apostrophe" using eq by simp
    with no_apostrophe_at_20[OF assms] show False by simp
  qed
  then show ?thesis unfolding bad_revision_rx_unfold by (simp only: if_False)
qed

lemma bad_revision_extract_prefixed:
  assumes "apostrophe \<notin> set pre"
      and "list_all is_dot_char ref" and "apostrophe \<notin> set (takeWhile is_dot_char post)"
  shows "rx_exec bad_revision_rx
           (pre @ js ''fatal: bad revision '' @ [apostrophe] @ ref @ [apostrophe] @ post) = Some [ref]"
  using assms(1)
proof (induction pre)
  case Nil
  show ?case using bad_revision_extract[OF assms(2,3)] by simp
next
  case (Cons c pre)
  have "rx_from bad_revision_rx ((c # pre) @ js ''fatal: bad revision '' @ apostrophe # (ref @ [apostrophe] @ post)) = None"
    using Cons.prems by (intro bad_revision_not_in_prefix) simp_all
  then have "rx_from bad_revision_rx (c # (pre @ js ''fatal: bad revision '' @ [apostrophe] @ ref @ [apostrophe] @ post)) = None"
    by simp
  moreover have "rx_exec bad_revision_rx (pre @ js ''fatal: bad revision '' @ [apostrophe] @ ref @ [apostrophe] @ post) = Some [ref]"
    using Cons by simp
  ultimately show ?case by simp
qed

lemma bad_revision_from_groups:
  assumes "rx_from bad_revision_rx s = Some m"
  shows "\<exists>r. m = [r]"
proof -
  define t where "t = drop (length (js ''fatal: bad revision '' @ [apostrophe])) s"
  from assms have "rx_from [Capture is_dot_char 0, Lit [apostrophe]] t = Some m"
    unfolding bad_revision_rx_unfold t_def[symmetric] by (simp split: if_splits)
  then obtain n where "map_option ((#) (take n t)) (rx_from [Lit [apostrophe]] (drop n t)) = Some m"
    unfolding rx_capture_unfold by (blast dest: first_some_SomeD)
  then show ?thesis unfolding rx_lit_apostrophe by (auto split: if_splits)
qed

lemma bad_revision_groups:
  "rx_exec bad_revision_rx s = Some m \<Longrightarrow> \<exists>r. m = [r]"
  by (induction s) (auto dest: bad_revision_from_groups split: option.splits)

subsection \<open>The catch block\<close>

lemma throwGitDiffError_match:
  assumes "instance_of_Error e" and "get_prop e ''stderr'' = Some diag"
      and "rx_exec bad_revision_rx diag = Some [r]"
  shows "throwGitDiffError e = Some (GitDiffError r)"
proof -
  have "diag \<noteq> []"
  proof
    assume "diag = []"
    with assms(3) show False by (simp add: bad_revision_rx_def js_def)
  qed
  then have "isErrorWithStderr e" using assms(1,2) by (simp add: isErrorWithStderr_def)
  then show ?thesis
    using assms(2,3)
    by (simp add: throwGitDiffError_def GitDiffError_def set_prop_def new_Error_def
        errorName_def badRevisionErrorCode_def)
qed

lemma throwGitDiffError_no_stderr: "\<not> isErrorWithStderr e \<Longrightarrow> throwGitDiffError e = None"
  by (simp add: throwGitDiffError_def)

lemma throwGitDiffError_no_match:
  "get_prop e ''stderr'' = Some diag \<Longrightarrow> rx_exec bad_revision_rx diag = None
   \<Longrightarrow> throwGitDiffError e = None"
  by (simp add: throwGitDiffError_def)

lemma diff_ExecError:
  "diffAsync h (ExecError e) = (h, Inl (rethrow e))" "diffSync h (ExecError e) = (h, Inl (rethrow e))"
  by (simp_all add: diffAsync_def diffSync_def)

lemma rethrow_invalid_line: "rethrow (invalid_line_error l) = invalid_line_error l"
proof -
  have "\<not> isErrorWithStderr (invalid_line_error l)"
    by (simp add: isErrorWithStderr_def invalid_line_error_def new_Error_def get_prop_def)
  then have "throwGitDiffError (invalid_line_error l) = None"
    by (rule throwGitDiffError_no_stderr)
  then show ?thesis by (simp add: rethrow_def)
qed

lemma diff_Stdout_error:
  assumes "snd (parse h out) = Inl pe"
  shows "snd (diffAsync h (Stdout out)) = Inl pe" and "snd (diffSync h (Stdout out)) = Inl pe"
proof -
  from assms obtain l where pe: "pe = invalid_line_error l"
    unfolding parse_result by (auto split: option.splits)
  obtain h' where p: "parse h out = (h', Inl pe)" using assms by (cases "parse h out") simp
  show "snd (diffAsync h (Stdout out)) = Inl pe"
    by (simp add: diffAsync_def p) (simp add: pe rethrow_invalid_line)
  show "snd (diffSync h (Stdout out)) = Inl pe"
    by (simp add: diffSync_def p) (simp add: pe rethrow_invalid_line)
qed

section \<open>Claims\<close>

text \<open>
  C1.  The status token that \<open>parse\<close> extracts is the leading run of word characters
  of the line (\<^verbatim>\<open>[^\W]\<close> is \<^verbatim>\<open>\w\<close>), and it is never empty.  On a line made of a
  run of word characters, a run of white space and a remainder that starts with a word
  character and holds no line terminator, the status is the first run and the path is
  the remainder with its surrounding white space trimmed.
\<close>

theorem C1_status_and_path:
  "(parse_line line = Some (path, status) \<longrightarrow>
      status = takeWhile is_word_char line \<and> status \<noteq> [] \<and> path \<noteq> []) \<and>
   (st \<noteq> [] \<and> list_all is_word_char st \<and> sep \<noteq> [] \<and> list_all is_white_space sep \<and>
    p \<noteq> [] \<and> is_word_char (hd p) \<and> list_all is_dot_char p \<longrightarrow>
      parse_line (st @ sep @ p) = Some (trim p, st))"
proof (intro conjI impI)
  assume a: "parse_line line = Some (path, status)"
  then show "status = takeWhile is_word_char line"
    unfolding parse_line_eq by (simp split: if_splits)
  from a show "status \<noteq> []" unfolding parse_line_eq by (auto split: if_splits)
  from a show "path \<noteq> []" unfolding parse_line_eq by (auto simp: trim_eq_Nil split: if_splits)
next
  assume a: "st \<noteq> [] \<and> list_all is_word_char st \<and> sep \<noteq> [] \<and> list_all is_white_space sep \<and>
    p \<noteq> [] \<and> is_word_char (hd p) \<and> list_all is_dot_char p"
  then have "list_all is_non_word_char sep"
    by (auto simp: list_all_iff is_non_word_char_def dest: white_space_non_word)
  with a show "parse_line (st @ sep @ p) = Some (trim p, st)"
    using parse_line_form[of st sep p] by simp
qed

theorem C1_witness:
  "parse_line (js ''M'' @ [0x09] @ js ''src/Diff.ts'') = Some (js ''src/Diff.ts'', js ''M'') \<and>
   js ''M'' = takeWhile is_word_char (js ''M'' @ [0x09] @ js ''src/Diff.ts'')"
proof -
  have h: "js ''M'' \<noteq> [] \<and> list_all is_word_char (js ''M'') \<and> [0x09] \<noteq> [] \<and>
      list_all is_white_space [0x09] \<and> js ''src/Diff.ts'' \<noteq> [] \<and>
      is_word_char (hd (js ''src/Diff.ts'')) \<and> list_all is_dot_char (js ''src/Diff.ts'')"
    by code_simp
  have t: "trim (js ''src/Diff.ts'') = js ''src/Diff.ts''" by code_simp
  have 1: "parse_line (js ''M'' @ [0x09] @ js ''src/Diff.ts'') = Some (js ''src/Diff.ts'', js ''M'')"
    using C1_status_and_path[of "[]" "[]" "[]" "js ''M''" "[0x09]" "js ''src/Diff.ts''"] h t by simp
  from 1 C1_status_and_path[of "js ''M'' @ [0x09] @ js ''src/Diff.ts''" "js ''src/Diff.ts''" "js ''M''" "[]" "[]" "[]"]
  show ?thesis by simp
qed

text \<open>
  On \<^verbatim>\<open>A foo\<close> the status is \<^verbatim>\<open>A\<close>, while the leading run of non-word characters
  of that line is empty.
\<close>

theorem C1_counterexample:
  "parse_line (js ''A foo'') = Some (js ''foo'', js ''A'') \<and>
   takeWhile is_non_word_char (js ''A foo'') = []"
  by code_simp

text \<open>
  C2.  When \<open>parse\<close> succeeds, the size of the Diff is the number of distinct paths
  recorded from the lines that are not empty.  It is at most the number of those lines,
  and equal to it exactly when no two of them give the same path.
\<close>

theorem C2_size_counts_distinct_paths:
  assumes "parse h stdout = (h', Inr d)"
  shows "Diff_size h' d = card (set (map fst (recorded stdout))) \<and>
         length (recorded stdout) = length (non_blank_lines stdout) \<and>
         Diff_size h' d \<le> length (non_blank_lines stdout) \<and>
         (Diff_size h' d = length (non_blank_lines stdout) \<longleftrightarrow>
            distinct (map fst (recorded stdout)))"
proof -
  have len: "length (recorded stdout) = length (non_blank_lines stdout)"
    using parse_Inr_no_offending[OF assms] by (rule recorded_length)
  have "Diff_size h' d = length (Map_from_iterable (recorded stdout))"
    using parse_Inr_store[OF assms] by (simp add: Diff_size_def)
  then have sz: "Diff_size h' d = card (set (map fst (recorded stdout)))"
    by (simp only: Map_from_iterable_length)
  have le: "card (set (map fst (recorded stdout))) \<le> length (map fst (recorded stdout))"
    by (rule card_length)
  have eq: "card (set (map fst (recorded stdout))) = length (map fst (recorded stdout)) \<longleftrightarrow>
      distinct (map fst (recorded stdout))"
    using distinct_card[of "map fst (recorded stdout)"] card_distinct[of "map fst (recorded stdout)"]
    by blast
  show ?thesis using sz len le eq by simp
qed

theorem C2_witness:
  "Diff_size (fst (parse [] (js ''A foo'' @ [newline] @ js ''M bar'' @ [newline])))
      \<lparr>diff_map = 0\<rparr> = 2"
proof -
  let ?t = "js ''A foo'' @ [newline] @ js ''M bar'' @ [newline]"
  have p: "parse [] ?t = (fst (parse [] ?t), Inr \<lparr>diff_map = 0\<rparr>)" by code_simp
  have r: "map fst (recorded ?t) = [js ''foo'', js ''bar'']" by code_simp
  have d: "distinct [js ''foo'', js ''bar'']" by code_simp
  have n: "length (non_blank_lines ?t) = 2" by code_simp
  from C2_size_counts_distinct_paths[OF p] r d n show ?thesis by simp
qed

text \<open>
  Two lines with the same path: both are well formed, the size is 1.
\<close>

theorem C2_counterexample:
  "snd (parse [] (js ''A foo'' @ [newline] @ js ''M foo'')) = Inr \<lparr>diff_map = 0\<rparr> \<and>
   Diff_size (fst (parse [] (js ''A foo'' @ [newline] @ js ''M foo''))) \<lparr>diff_map = 0\<rparr> = 1 \<and>
   length (non_blank_lines (js ''A foo'' @ [newline] @ js ''M foo'')) = 2 \<and>
   map parse_line (non_blank_lines (js ''A foo'' @ [newline] @ js ''M foo'')) =
     [Some (js ''foo'', js ''A''), Some (js ''foo'', js ''M'')]"
  by code_simp

text \<open>
  C3.  When the command fails with an \<^verbatim>\<open>Error\<close> whose \<^verbatim>\<open>stderr\<close> holds
  \<^verbatim>\<open>fatal: bad revision '<ref>'\<close>, \<open>diffAsync\<close> and \<open>diffSync\<close> throw an error with
  the name \<^verbatim>\<open>GitDiffError\<close>, the code \<^verbatim>\<open>BAD_REVISION\<close> and the message
  \<^verbatim>\<open>The ref does not exist: <ref>\<close>; the reference stands in the message and in no
  other property.  When the pattern does not match, when the thrown value has no
  \<^verbatim>\<open>stderr\<close>, and when \<open>parse\<close> throws, the original error is thrown again unchanged.
\<close>

theorem C3_bad_revision_classified:
  assumes "instance_of_Error e" and "get_prop e ''stderr'' = Some diag"
  shows "(diag = pre @ js ''fatal: bad revision '' @ [apostrophe] @ ref @ [apostrophe] @ post \<and>
          apostrophe \<notin> set pre \<and>
          list_all is_dot_char ref \<and> apostrophe \<notin> set (takeWhile is_dot_char post) \<longrightarrow>
            diffAsync h (ExecError e) = (h, Inl (GitDiffError ref)) \<and>
            diffSync h (ExecError e) = (h, Inl (GitDiffError ref))) \<and>
         (rx_exec bad_revision_rx diag = Some m \<longrightarrow>
            (\<exists>r. m = [r] \<and> diffAsync h (ExecError e) = (h, Inl (GitDiffError r)) \<and>
                 diffSync h (ExecError e) = (h, Inl (GitDiffError r)))) \<and>
         (rx_exec bad_revision_rx diag = None \<longrightarrow>
            diffAsync h (ExecError e) = (h, Inl e) \<and> diffSync h (ExecError e) = (h, Inl e)) \<and>
         (\<not> isErrorWithStderr e' \<longrightarrow>
            diffAsync h (ExecError e') = (h, Inl e') \<and> diffSync h (ExecError e') = (h, Inl e')) \<and>
         (snd (parse h out) = Inl pe \<longrightarrow>
            snd (diffAsync h (Stdout out)) = Inl pe \<and> snd (diffSync h (Stdout out)) = Inl pe)"
proof (intro conjI impI)
  assume a: "diag = pre @ js ''fatal: bad revision '' @ [apostrophe] @ ref @ [apostrophe] @ post \<and>
          apostrophe \<notin> set pre \<and>
          list_all is_dot_char ref \<and> apostrophe \<notin> set (takeWhile is_dot_char post)"
  then have "rx_exec bad_revision_rx diag = Some [ref]"
    using bad_revision_extract_prefixed[of pre ref post] by blast
  then have t: "throwGitDiffError e = Some (GitDiffError ref)"
    using assms by (intro throwGitDiffError_match)
  show "diffAsync h (ExecError e) = (h, Inl (GitDiffError ref))"
    by (simp add: diff_ExecError rethrow_def t)
  show "diffSync h (ExecError e) = (h, Inl (GitDiffError ref))"
    by (simp add: diff_ExecError rethrow_def t)
next
  assume a: "rx_exec bad_revision_rx diag = Some m"
  then obtain r where r: "m = [r]" by (blast dest: bad_revision_groups)
  have t: "throwGitDiffError e = Some (GitDiffError r)"
    using assms a[unfolded r] by (rule throwGitDiffError_match)
  show "\<exists>r. m = [r] \<and> diffAsync h (ExecError e) = (h, Inl (GitDiffError r)) \<and>
                 diffSync h (ExecError e) = (h, Inl (GitDiffError r))"
    using r by (simp add: diff_ExecError rethrow_def t)
next
  assume "rx_exec bad_revision_rx diag = None"
  with assms(2) have t: "throwGitDiffError e = None" by (rule throwGitDiffError_no_match)
  show "diffAsync h (ExecError e) = (h, Inl e)" by (simp add: diff_ExecError rethrow_def t)
  show "diffSync h (ExecError e) = (h, Inl e)" by (simp add: diff_ExecError rethrow_def t)
next
  assume "\<not> isErrorWithStderr e'"
  then have t: "throwGitDiffError e' = None" by (rule throwGitDiffError_no_stderr)
  show "diffAsync h (ExecError e') = (h, Inl e')" by (simp add: diff_ExecError rethrow_def t)
  show "diffSync h (ExecError e') = (h, Inl e')" by (simp add: diff_ExecError rethrow_def t)
next
  assume a: "snd (parse h out) = Inl pe"
  show "snd (diffAsync h (Stdout out)) = Inl pe" using a by (rule diff_Stdout_error)
  show "snd (diffSync h (Stdout out)) = Inl pe" using a by (rule diff_Stdout_error)
qed

theorem C3_witness:
  "diffAsync []
     (ExecError \<lparr>instance_of_Error = True,
                 props = [(''stderr'', js ''fatal: bad revision '' @ [apostrophe] @ js ''nope'' @ [apostrophe] @ [newline])]\<rparr>) =
     ([], Inl (GitDiffError (js ''nope''))) \<and>
   diffAsync []
     (ExecError \<lparr>instance_of_Error = True, props = [(''stderr'', js ''fatal: not a git repository'')]\<rparr>) =
     ([], Inl \<lparr>instance_of_Error = True, props = [(''stderr'', js ''fatal: not a git repository'')]\<rparr>)"
proof -
  let ?e1 = "\<lparr>instance_of_Error = True,
                 props = [(''stderr'', js ''fatal: bad revision '' @ [apostrophe] @ js ''nope'' @ [apostrophe] @ [newline])]\<rparr>"
  let ?e2 = "\<lparr>instance_of_Error = True, props = [(''stderr'', js ''fatal: not a git repository'')]\<rparr>"
  have i1: "instance_of_Error ?e1" and i2: "instance_of_Error ?e2" by simp_all
  have s1: "get_prop ?e1 ''stderr'' =
      Some (js ''fatal: bad revision '' @ [apostrophe] @ js ''nope'' @ [apostrophe] @ [newline])"
    by (simp add: get_prop_def)
  have s2: "get_prop ?e2 ''stderr'' = Some (js ''fatal: not a git repository'')"
    by (simp add: get_prop_def)
  have c1: "apostrophe \<notin> set [] \<and> list_all is_dot_char (js ''nope'') \<and>
      apostrophe \<notin> set (takeWhile is_dot_char [newline])"
    by code_simp
  have c2: "rx_exec bad_revision_rx (js ''fatal: not a git repository'') = None" by code_simp
  from C3_bad_revision_classified[OF i1 s1, where pre = "[]" and ref = "js ''nope''" and post = "[newline]" and h = "[]"] c1
  have 1: "diffAsync [] (ExecError ?e1) = ([], Inl (GitDiffError (js ''nope'')))" by blast
  from C3_bad_revision_classified[OF i2 s2, where h = "[]"] c2
  have 2: "diffAsync [] (ExecError ?e2) = ([], Inl ?e2)" by blast
  from 1 2 show ?thesis by simp
qed

text \<open>
  The error thrown for \<^verbatim>\<open>fatal: bad revision 'nope'\<close> has three properties, and none of
  them equals \<^verbatim>\<open>nope\<close>.
\<close>

theorem C3_counterexample:
  "diffAsync []
     (ExecError \<lparr>instance_of_Error = True,
                 props = [(''stderr'', js ''fatal: bad revision '' @ [apostrophe] @ js ''nope'' @ [apostrophe])]\<rparr>) =
     ([], Inl \<lparr>instance_of_Error = True,
               props = [(''message'', js ''The ref does not exist: nope''),
                        (''name'', js ''GitDiffError''), (''code'', js ''BAD_REVISION'')]\<rparr>) \<and>
   js ''nope'' \<notin> set [js ''The ref does not exist: nope'', js ''GitDiffError'', js ''BAD_REVISION'']"
  by code_simp

text \<open>
  C4.  If some line of the text is not empty and yields no status and path, \<open>parse\<close>
  throws: the result is the error whose message is \<^verbatim>\<open>Invalid line in diff output: \<close>
  followed by the first such line, and no Diff is returned.
\<close>

theorem C4_malformed_line_fails:
  assumes "l \<in> set (split_lines stdout)" and "l \<noteq> []" and "parse_line l = None"
  shows "\<exists>pre bad post.
           split_lines stdout = pre @ bad # post \<and>
           (\<forall>x\<in>set pre. x = [] \<or> parse_line x \<noteq> None) \<and>
           bad \<noteq> [] \<and> parse_line bad = None \<and>
           snd (parse h stdout) = Inl (invalid_line_error bad) \<and>
           get_prop (invalid_line_error bad) ''message'' =
             Some (js ''Invalid line in diff output: '' @ bad)"
proof -
  from assms have "\<exists>x\<in>set (split_lines stdout). offending x"
    by (auto simp: offending_def)
  then obtain pre bad post where sp: "split_lines stdout = pre @ bad # post"
      and bad: "offending bad" and pre: "\<forall>x\<in>set pre. \<not> offending x"
    using split_list_first_prop[of "split_lines stdout" offending] by blast
  have "snd (parse h stdout) = Inl (invalid_line_error bad)"
    using sp pre bad by (rule parse_first_offending)
  with sp bad pre show ?thesis
    by (auto simp: offending_def message_invalid_line)
qed

theorem C4_witness:
  "snd (parse [] (js ''A foo'' @ [newline] @ js ''garbage'' @ [newline] @ js ''M bar'')) =
     Inl (invalid_line_error (js ''garbage''))"
proof -
  have s: "split_lines (js ''A foo'' @ [newline] @ js ''garbage'' @ [newline] @ js ''M bar'') =
      [js ''A foo'', js ''garbage'', js ''M bar'']" by code_simp
  have g: "parse_line (js ''garbage'') = None" by code_simp
  have a: "parse_line (js ''A foo'') \<noteq> None" by code_simp
  have n: "js ''garbage'' \<noteq> []" by code_simp
  have m: "js ''garbage'' \<in> set (split_lines (js ''A foo'' @ [newline] @ js ''garbage'' @ [newline] @ js ''M bar''))"
    unfolding s by simp
  from C4_malformed_line_fails[OF m n g, of "[]"]
  obtain pre bad post where
    sp: "split_lines (js ''A foo'' @ [newline] @ js ''garbage'' @ [newline] @ js ''M bar'') = pre @ bad # post"
    and pre: "\<forall>x\<in>set pre. x = [] \<or> parse_line x \<noteq> None"
    and bad: "bad \<noteq> []" "parse_line bad = None"
    and res: "snd (parse [] (js ''A foo'' @ [newline] @ js ''garbage'' @ [newline] @ js ''M bar'')) = Inl (invalid_line_error bad)"
    by blast
  have mb: "parse_line (js ''M bar'') \<noteq> None" by code_simp
  have "bad \<in> set [js ''A foo'', js ''garbage'', js ''M bar'']"
    using sp unfolding s by (metis in_set_conv_decomp)
  with bad a mb have "bad = js ''garbage''" by auto
  with res show ?thesis by simp
qed

text \<open>
  C5.  \<open>filter\<close> returns a new Diff over a new map; its entries are those entries of
  the source, in order, whose path matches at least one of the patterns (when
  \<open>paths\<close> is given) and whose status is among \<open>statuses\<close> (when given).  With
  neither option the entries are those of the source.  The source is unchanged.
\<close>

theorem C5_filter:
  assumes "valid_Diff h d" and "Diff_filter (glob_any pm) h d opts = (h', r)"
  shows "Diff_entries h' r =
           filter (\<lambda>(path, status).
                     (case paths opts of None \<Rightarrow> True | Some pats \<Rightarrow> \<exists>pat\<in>set pats. pm pat path) \<and>
                     (case statuses opts of None \<Rightarrow> True | Some sts \<Rightarrow> status \<in> set sts))
             (Diff_entries h d) \<and>
         diff_map r = length h \<and> diff_map r \<noteq> diff_map d \<and> valid_Diff h' r \<and>
         Diff_entries h' d = Diff_entries h d \<and>
         (paths opts = None \<and> statuses opts = None \<longrightarrow> Diff_entries h' r = Diff_entries h d)"
proof -
  let ?keep = "filter_keeps (glob_any pm (case paths opts of Some ps \<Rightarrow> ps | None \<Rightarrow> [])) opts"
  let ?kept = "filter ?keep (Diff_entries h d)"
  from assms(1) have lt: "diff_map d < length h" and dist: "distinct (map fst (Diff_entries h d))"
    by (simp_all add: valid_Diff_def Diff_entries_def)
  have dk: "distinct (map fst ?kept)" using dist by (rule distinct_map_filter)
  then have same: "Map_from_iterable ?kept = ?kept" by (rule Map_from_iterable_id)
  from assms(2) have h': "h' = h @ [?kept]" and r: "diff_map r = length h"
    by (auto simp: Diff_filter_def new_Map_def same Let_def)
  have keep: "?keep = (\<lambda>(path, status).
                     (case paths opts of None \<Rightarrow> True | Some pats \<Rightarrow> \<exists>pat\<in>set pats. pm pat path) \<and>
                     (case statuses opts of None \<Rightarrow> True | Some sts \<Rightarrow> status \<in> set sts))"
    by (rule ext) (simp only: filter_keeps_eq split_paired_all prod.case)
  have er: "Diff_entries h' r = ?kept" by (simp add: Diff_entries_def h' r)
  have 1: "Diff_entries h' r =
           filter (\<lambda>(path, status).
                     (case paths opts of None \<Rightarrow> True | Some pats \<Rightarrow> \<exists>pat\<in>set pats. pm pat path) \<and>
                     (case statuses opts of None \<Rightarrow> True | Some sts \<Rightarrow> status \<in> set sts))
             (Diff_entries h d)"
    unfolding er keep ..
  have 2: "Diff_entries h' d = Diff_entries h d"
    using lt by (simp add: Diff_entries_def h' nth_append)
  have 3: "valid_Diff h' r" using dk by (simp add: valid_Diff_def h' r)
  have 4: "paths opts = None \<and> statuses opts = None \<longrightarrow> Diff_entries h' r = Diff_entries h d"
    unfolding 1 by (auto simp: split_def)
  show ?thesis using 1 2 3 4 r lt by simp
qed

theorem C5_witness:
  "Diff_entries
     (fst (Diff_filter (glob_any (\<lambda>pat p. pat = p))
        [[(js ''a.json'', js ''A''), (js ''b.ts'', js ''M''), (js ''c.json'', js ''D'')]]
        \<lparr>diff_map = 0\<rparr>
        \<lparr>paths = Some [js ''a.json'', js ''b.ts''], statuses = Some [js ''A'', js ''D'']\<rparr>))
     \<lparr>diff_map = 1\<rparr> = [(js ''a.json'', js ''A'')]"
proof -
  let ?h = "[[(js ''a.json'', js ''A''), (js ''b.ts'', js ''M''), (js ''c.json'', js ''D'')]]"
  let ?o = "\<lparr>paths = Some [js ''a.json'', js ''b.ts''], statuses = Some [js ''A'', js ''D'']\<rparr>"
  let ?g = "glob_any (\<lambda>pat p. pat = p)"
  have v: "valid_Diff ?h \<lparr>diff_map = 0\<rparr>" by code_simp
  have f: "Diff_filter ?g ?h \<lparr>diff_map = 0\<rparr> ?o =
      (fst (Diff_filter ?g ?h \<lparr>diff_map = 0\<rparr> ?o), \<lparr>diff_map = 1\<rparr>)" by code_simp
  have e: "filter (\<lambda>(path, status).
                     (case paths ?o of None \<Rightarrow> True | Some pats \<Rightarrow> \<exists>pat\<in>set pats. pat = path) \<and>
                     (case statuses ?o of None \<Rightarrow> True | Some sts \<Rightarrow> status \<in> set sts))
             (Diff_entries ?h \<lparr>diff_map = 0\<rparr>) = [(js ''a.json'', js ''A'')]" by code_simp
  from C5_filter[OF v f] e show ?thesis by simp
qed

text \<open>
  C6.  Each getter of the object returned by \<open>match\<close> is true exactly when some entry
  has the getter's status and a path accepted by the tester compiled from the paths; all
  six are false when no entry's path is accepted.
\<close>

theorem C6_match:
  "(added h (Diff_match glob d sel) \<longleftrightarrow>
      (\<exists>(p, s)\<in>set (Diff_entries h d). s = Status_Added \<and> glob (toArray sel) p)) \<and>
   (changed h (Diff_match glob d sel) \<longleftrightarrow>
      (\<exists>(p, s)\<in>set (Diff_entries h d). s = Status_Changed \<and> glob (toArray sel) p)) \<and>
   (deleted h (Diff_match glob d sel) \<longleftrightarrow>
      (\<exists>(p, s)\<in>set (Diff_entries h d). s = Status_Deleted \<and> glob (toArray sel) p)) \<and>
   (modified h (Diff_match glob d sel) \<longleftrightarrow>
      (\<exists>(p, s)\<in>set (Diff_entries h d). s = Status_Modified \<and> glob (toArray sel) p)) \<and>
   (renamed h (Diff_match glob d sel) \<longleftrightarrow>
      (\<exists>(p, s)\<in>set (Diff_entries h d). s = Status_Renamed \<and> glob (toArray sel) p)) \<and>
   (unknown h (Diff_match glob d sel) \<longleftrightarrow>
      (\<exists>(p, s)\<in>set (Diff_entries h d). s = Status_Unknown \<and> glob (toArray sel) p)) \<and>
   ((\<forall>(p, s)\<in>set (Diff_entries h d). \<not> glob (toArray sel) p) \<longrightarrow>
      \<not> added h (Diff_match glob d sel) \<and> \<not> changed h (Diff_match glob d sel) \<and>
      \<not> deleted h (Diff_match glob d sel) \<and> \<not> modified h (Diff_match glob d sel) \<and>
      \<not> renamed h (Diff_match glob d sel) \<and> \<not> unknown h (Diff_match glob d sel))"
proof -
  have a: "added h (Diff_match glob d sel) \<longleftrightarrow>
      (\<exists>(p, s)\<in>set (Diff_entries h d). s = Status_Added \<and> glob (toArray sel) p)"
    by (simp add: added_def Diff_match_def Diff_entries_def list_ex_case_prod)
  have c: "changed h (Diff_match glob d sel) \<longleftrightarrow>
      (\<exists>(p, s)\<in>set (Diff_entries h d). s = Status_Changed \<and> glob (toArray sel) p)"
    by (simp add: changed_def Diff_match_def Diff_entries_def list_ex_case_prod)
  have dl: "deleted h (Diff_match glob d sel) \<longleftrightarrow>
      (\<exists>(p, s)\<in>set (Diff_entries h d). s = Status_Deleted \<and> glob (toArray sel) p)"
    by (simp add: deleted_def Diff_match_def Diff_entries_def list_ex_case_prod)
  have m: "modified h (Diff_match glob d sel) \<longleftrightarrow>
      (\<exists>(p, s)\<in>set (Diff_entries h d). s = Status_Modified \<and> glob (toArray sel) p)"
    by (simp add: modified_def Diff_match_def Diff_entries_def list_ex_case_prod)
  have r: "renamed h (Diff_match glob d sel) \<longleftrightarrow>
      (\<exists>(p, s)\<in>set (Diff_entries h d). s = Status_Renamed \<and> glob (toArray sel) p)"
    by (simp add: renamed_def Diff_match_def Diff_entries_def list_ex_case_prod)
  have u: "unknown h (Diff_match glob d sel) \<longleftrightarrow>
      (\<exists>(p, s)\<in>set (Diff_entries h d). s = Status_Unknown \<and> glob (toArray sel) p)"
    by (simp add: unknown_def Diff_match_def Diff_entries_def list_ex_case_prod)
  have none: "(\<forall>(p, s)\<in>set (Diff_entries h d). \<not> glob (toArray sel) p) \<longrightarrow>
      \<not> added h (Diff_match glob d sel) \<and> \<not> changed h (Diff_match glob d sel) \<and>
      \<not> deleted h (Diff_match glob d sel) \<and> \<not> modified h (Diff_match glob d sel) \<and>
      \<not> renamed h (Diff_match glob d sel) \<and> \<not> unknown h (Diff_match glob d sel)"
    unfolding a c dl m r u by blast
  show ?thesis using a c dl m r u none by blast
qed

theorem C6_witness:
  "added [[(js ''package.json'', js ''X''), (js ''src/main.ts'', js ''A'')]]
     (Diff_match (glob_any (\<lambda>pat p. pat = p)) \<lparr>diff_map = 0\<rparr> (One (js ''src/main.ts''))) \<and>
   \<not> added [[(js ''package.json'', js ''X''), (js ''src/main.ts'', js ''A'')]]
     (Diff_match (glob_any (\<lambda>pat p. pat = p)) \<lparr>diff_map = 0\<rparr> (One (js ''README.md'')))"
proof -
  let ?h = "[[(js ''package.json'', js ''X''), (js ''src/main.ts'', js ''A'')]]"
  let ?g = "glob_any (\<lambda>pat p. pat = p)"
  have 1: "\<exists>(p, s)\<in>set (Diff_entries ?h \<lparr>diff_map = 0\<rparr>).
             s = Status_Added \<and> ?g (toArray (One (js ''src/main.ts''))) p" by code_simp
  have 2: "\<forall>(p, s)\<in>set (Diff_entries ?h \<lparr>diff_map = 0\<rparr>).
             \<not> ?g (toArray (One (js ''README.md''))) p" by code_simp
  from C6_match[of ?h ?g "\<lparr>diff_map = 0\<rparr>" "One (js ''src/main.ts'')"] 1
  have a: "added ?h (Diff_match ?g \<lparr>diff_map = 0\<rparr> (One (js ''src/main.ts'')))" by blast
  from C6_match[of ?h ?g "\<lparr>diff_map = 0\<rparr>" "One (js ''README.md'')"] 2
  have b: "\<not> added ?h (Diff_match ?g \<lparr>diff_map = 0\<rparr> (One (js ''README.md'')))" by blast
  from a b show ?thesis by simp
qed

text \<open>
  C7.  The paths of a Diff are distinct.  Built from a sequence of pairs or parsed from
  text, its paths are the paths of the source in order of first appearance
  (\<open>rev (remdups (rev ks))\<close> keeps the first occurrence of each key), and the status
  of a path is the last one written for it.
\<close>

theorem C7_unique_paths_last_write_wins:
  "(Diff_new h (FromIterable xs) = (h1, d1) \<longrightarrow>
      distinct (Diff_paths h1 d1) \<and>
      Diff_paths h1 d1 = rev (remdups (rev (map fst xs))) \<and>
      (\<forall>(p, s)\<in>set (Diff_entries h1 d1). map_of (rev xs) p = Some s)) \<and>
   (parse h stdout = (h2, Inr d2) \<longrightarrow>
      distinct (Diff_paths h2 d2) \<and>
      Diff_paths h2 d2 = rev (remdups (rev (map fst (recorded stdout)))) \<and>
      (\<forall>(p, s)\<in>set (Diff_entries h2 d2). map_of (rev (recorded stdout)) p = Some s)) \<and>
   (Diff_new h (FromMap a) = (h3, d3) \<and> distinct (map fst (h ! a)) \<longrightarrow>
      distinct (Diff_paths h3 d3))"
proof (intro conjI impI)
  assume a: "Diff_new h (FromIterable xs) = (h1, d1)"
  then have e: "h1 ! diff_map d1 = Map_from_iterable xs"
    by (auto simp: new_Map_def)
  show "distinct (Diff_paths h1 d1)"
    by (simp add: Diff_paths_def e Map_from_iterable_distinct)
  show "Diff_paths h1 d1 = rev (remdups (rev (map fst xs)))"
    by (simp only: Diff_paths_def e Map_from_iterable_keys)
  show "\<forall>(p, s)\<in>set (Diff_entries h1 d1). map_of (rev xs) p = Some s"
    by (auto simp: Diff_entries_def e dest: entries_last_write)
next
  assume a: "parse h stdout = (h2, Inr d2)"
  have e: "h2 ! diff_map d2 = Map_from_iterable (recorded stdout)"
    using parse_Inr_store[OF a] by simp
  show "distinct (Diff_paths h2 d2)"
    by (simp add: Diff_paths_def e Map_from_iterable_distinct)
  show "Diff_paths h2 d2 = rev (remdups (rev (map fst (recorded stdout))))"
    by (simp only: Diff_paths_def e Map_from_iterable_keys)
  show "\<forall>(p, s)\<in>set (Diff_entries h2 d2). map_of (rev (recorded stdout)) p = Some s"
    by (auto simp: Diff_entries_def e dest: entries_last_write)
next
  assume "Diff_new h (FromMap a) = (h3, d3) \<and> distinct (map fst (h ! a))"
  then show "distinct (Diff_paths h3 d3)" by (auto simp: Diff_paths_def)
qed

theorem C7_witness:
  "Diff_entries
     (fst (Diff_new [] (FromIterable [(js ''a'', js ''A''), (js ''b'', js ''M''), (js ''a'', js ''D'')])))
     \<lparr>diff_map = 0\<rparr> = [(js ''a'', js ''D''), (js ''b'', js ''M'')] \<and>
   Diff_entries
     (fst (parse [] (js ''A a'' @ [newline] @ js ''M b'' @ [newline] @ js ''D a'')))
     \<lparr>diff_map = 0\<rparr> = [(js ''a'', js ''D''), (js ''b'', js ''M'')] \<and>
   distinct (Diff_paths [[(js ''a'', js ''A'')]] \<lparr>diff_map = 0\<rparr>)"
proof -
  let ?xs = "[(js ''a'', js ''A''), (js ''b'', js ''M''), (js ''a'', js ''D'')]"
  let ?t = "js ''A a'' @ [newline] @ js ''M b'' @ [newline] @ js ''D a''"
  have 1: "Diff_new [] (FromIterable ?xs) = (fst (Diff_new [] (FromIterable ?xs)), \<lparr>diff_map = 0\<rparr>)"
    by code_simp
  have 2: "parse [] ?t = (fst (parse [] ?t), Inr \<lparr>diff_map = 0\<rparr>)" by code_simp
  have 3: "Diff_new [[(js ''a'', js ''A'')]] (FromMap 0) = ([[(js ''a'', js ''A'')]], \<lparr>diff_map = 0\<rparr>) \<and>
           distinct (map fst ([[(js ''a'', js ''A'')]] ! 0))" by code_simp
  have e1: "Diff_entries (fst (Diff_new [] (FromIterable ?xs))) \<lparr>diff_map = 0\<rparr> =
      [(js ''a'', js ''D''), (js ''b'', js ''M'')]" by code_simp
  have e2: "Diff_entries (fst (parse [] ?t)) \<lparr>diff_map = 0\<rparr> =
      [(js ''a'', js ''D''), (js ''b'', js ''M'')]" by code_simp
  from C7_unique_paths_last_write_wins[of "[]" ?xs "fst (Diff_new [] (FromIterable ?xs))" "\<lparr>diff_map = 0\<rparr>"
      ?t "fst (parse [] ?t)" "\<lparr>diff_map = 0\<rparr>"] 
    C7_unique_paths_last_write_wins[of "[[(js ''a'', js ''A'')]]" "[]" "[]" "\<lparr>diff_map = 0\<rparr>" "[]" "[]" "\<lparr>diff_map = 0\<rparr>" 0
       "[[(js ''a'', js ''A'')]]" "\<lparr>diff_map = 0\<rparr>"] 3
  have "distinct (Diff_paths [[(js ''a'', js ''A'')]] \<lparr>diff_map = 0\<rparr>)" by blast
  with e1 e2 show ?thesis by simp
qed

text \<open>
  C8.  A Diff built with no argument, from an iterable of pairs, or by \<open>parse\<close> holds
  a map allocated by the constructor or by \<open>parse\<close>: its reference is new, and a change
  to the map behind any other reference leaves the entries, size, paths and statuses of
  the Diff as they were.
\<close>

theorem C8_fresh_map_not_aliased:
  assumes "(arg = Default \<or> arg = FromIterable xs) \<and> Diff_new h arg = (h', d) \<or>
           parse h stdout = (h', Inr d)"
      and "a \<noteq> length h"
  shows "diff_map d = length h \<and>
         Diff_entries (h'[a := m]) d = Diff_entries h' d \<and>
         Diff_size (h'[a := m]) d = Diff_size h' d \<and>
         Diff_paths (h'[a := m]) d = Diff_paths h' d \<and>
         Diff_statuses (h'[a := m]) d = Diff_statuses h' d \<and>
         Diff_entries (store_set h' a k v) d = Diff_entries h' d"
proof -
  have r: "diff_map d = length h"
    using assms(1) parse_Inr_store(2)[of h stdout h' d] by (auto simp: new_Map_def)
  then have "(h'[a := m]) ! diff_map d = h' ! diff_map d"
    and "(store_set h' a k v) ! diff_map d = h' ! diff_map d"
    using assms(2) by (simp_all add: store_set_def)
  then show ?thesis using r
    by (simp add: Diff_entries_def Diff_size_def Diff_paths_def Diff_statuses_def)
qed

theorem C8_witness:
  "Diff_entries
     (store_set (fst (Diff_new [Nil] (FromIterable [(js ''a'', js ''A'')]))) 0 (js ''b'') (js ''M''))
     \<lparr>diff_map = 1\<rparr> = [(js ''a'', js ''A'')]"
proof -
  let ?xs = "[(js ''a'', js ''A'')]"
  have 1: "(FromIterable ?xs = Default \<or> FromIterable ?xs = FromIterable ?xs) \<and>
      Diff_new [Nil] (FromIterable ?xs) = (fst (Diff_new [Nil] (FromIterable ?xs)), \<lparr>diff_map = 1\<rparr>)"
    by code_simp
  have 2: "(0::nat) \<noteq> length [Nil::js_map]" by simp
  have 3: "Diff_entries (fst (Diff_new [Nil] (FromIterable ?xs))) \<lparr>diff_map = 1\<rparr> = ?xs" by code_simp
  from C8_fresh_map_not_aliased[OF disjI1[OF 1] 2, where m = "[]" and k = "js ''b''" and v = "js ''M''"] 3
  show ?thesis by simp
qed

text \<open>
  A Diff built from a \<^verbatim>\<open>Map\<close> keeps the reference it was given: \<^verbatim>\<open>set\<close> on that
  map afterwards changes the size of the Diff.
\<close>

theorem C8_counterexample:
  "Diff_new [Nil] (FromMap 0) = ([Nil], \<lparr>diff_map = 0\<rparr>) \<and>
   Diff_size [Nil] \<lparr>diff_map = 0\<rparr> = 0 \<and>
   Diff_size (store_set [Nil] 0 (js ''a'') (js ''A'')) \<lparr>diff_map = 0\<rparr> = 1 \<and>
   Diff_entries (store_set [Nil] 0 (js ''a'') (js ''A'')) \<lparr>diff_map = 0\<rparr> = [(js ''a'', js ''A'')]"
  by code_simp

text \<open>
  C9.  Every status token that is a run of word characters, of any length, is accepted
  and stored as it is (so is every single letter A-Z or a-z); a line whose leading run
  of word characters is empty is rejected.
\<close>

theorem C9_status_token_verbatim:
  "(st \<noteq> [] \<and> list_all is_word_char st \<and> sep \<noteq> [] \<and> list_all is_white_space sep \<and>
    newline \<notin> set sep \<and> p \<noteq> [] \<and> is_word_char (hd p) \<and> list_all is_dot_char p \<longrightarrow>
      parse h (st @ sep @ p) = (h @ [[(trim p, st)]], Inr \<lparr>diff_map = length h\<rparr>) \<and>
      Diff_statuses (h @ [[(trim p, st)]]) \<lparr>diff_map = length h\<rparr> = [st]) \<and>
   (takeWhile is_word_char line = [] \<longrightarrow> parse_line line = None)"
proof (intro conjI impI)
  assume a: "st \<noteq> [] \<and> list_all is_word_char st \<and> sep \<noteq> [] \<and> list_all is_white_space sep \<and>
    newline \<notin> set sep \<and> p \<noteq> [] \<and> is_word_char (hd p) \<and> list_all is_dot_char p"
  let ?l = "st @ sep @ p"
  have nw: "list_all is_non_word_char sep"
    using a by (auto simp: list_all_iff is_non_word_char_def dest: white_space_non_word)
  have pl: "parse_line ?l = Some (trim p, st)"
    using a nw parse_line_form[of st sep p] by simp
  have "newline \<notin> set ?l"
    using a by (auto simp: list_all_iff dest: dot_char_not_newline word_char_not_newline)
  then have sl: "split_lines ?l = [?l]" by (rule split_lines_single)
  have no: "\<forall>x\<in>set (split_lines ?l). \<not> offending x"
    unfolding sl using pl by (simp add: offending_def)
  have rec: "recorded ?l = [(trim p, st)]"
    by (simp add: recorded_def sl List.map_filter_simps pl)
  show "parse h ?l = (h @ [[(trim p, st)]], Inr \<lparr>diff_map = length h\<rparr>)"
    using parse_no_offending[OF no, of h] by (simp add: rec Map_from_iterable_single)
  show "Diff_statuses (h @ [[(trim p, st)]]) \<lparr>diff_map = length h\<rparr> = [st]"
    by (simp add: Diff_statuses_def)
next
  assume "takeWhile is_word_char line = []"
  then show "parse_line line = None" by (simp add: parse_line_eq)
qed

theorem C9_witness:
  "parse [] (js ''T'' @ [0x09] @ js ''bin/run'') =
      ([[(js ''bin/run'', js ''T'')]], Inr \<lparr>diff_map = 0\<rparr>) \<and>
   Diff_statuses [[(js ''bin/run'', js ''T'')]] \<lparr>diff_map = 0\<rparr> = [js ''T''] \<and>
   parse_line (js ''.T x'') = None"
proof -
  have h: "js ''T'' \<noteq> [] \<and> list_all is_word_char (js ''T'') \<and> [0x09] \<noteq> [] \<and>
      list_all is_white_space [0x09] \<and> newline \<notin> set [0x09] \<and> js ''bin/run'' \<noteq> [] \<and>
      is_word_char (hd (js ''bin/run'')) \<and> list_all is_dot_char (js ''bin/run'')"
    by code_simp
  have t: "trim (js ''bin/run'') = js ''bin/run''" by code_simp
  have e: "takeWhile is_word_char (js ''.T x'') = []" by code_simp
  from C9_status_token_verbatim[of "js ''T''" "[0x09]" "js ''bin/run''" "[]" "js ''.T x''"] h t e
  show ?thesis by simp
qed

text \<open>
  The tokens \<^verbatim>\<open>R100\<close> and \<^verbatim>\<open>7\<close> are accepted.
\<close>

theorem C9_counterexample:
  "parse [] (js ''R100 old'') = ([[(js ''old'', js ''R100'')]], Inr \<lparr>diff_map = 0\<rparr>) \<and>
   Diff_statuses [[(js ''old'', js ''R100'')]] \<lparr>diff_map = 0\<rparr> = [js ''R100''] \<and>
   parse [] (js ''7 old'') = ([[(js ''old'', js ''7'')]], Inr \<lparr>diff_map = 0\<rparr>)"
  by code_simp

text \<open>
  C10.  A line that is not empty and holds white space only reaches the \<^verbatim>\<open>throw\<close>;
  only the empty line is skipped.
\<close>

theorem C10_whitespace_line_throws:
  assumes "l \<noteq> []" and "list_all is_white_space l"
  shows "parse_line l = None \<and>
         parse_loop h a [l] = (h, Some (invalid_line_error l)) \<and>
         parse_loop h a [Nil] = (h, None) \<and>
         (newline \<notin> set l \<longrightarrow> snd (parse h l) = Inl (invalid_line_error l)) \<and>
         (l \<in> set (split_lines stdout) \<longrightarrow>
            (\<exists>bad\<in>set (split_lines stdout). snd (parse h stdout) = Inl (invalid_line_error bad)))"
proof -
  have "takeWhile is_word_char l = []"
    using assms by (cases l) (auto dest: white_space_non_word)
  then have pl: "parse_line l = None" by (simp add: parse_line_eq)
  have off: "offending l" using assms(1) pl by (simp add: offending_def)
  have single: "newline \<notin> set l \<longrightarrow> snd (parse h l) = Inl (invalid_line_error l)"
  proof
    assume "newline \<notin> set l"
    then have sl: "split_lines l = [] @ l # []" by (simp add: split_lines_single)
    have "\<forall>x\<in>set []. \<not> offending x" by simp
    with sl show "snd (parse h l) = Inl (invalid_line_error l)"
      using off by (rule parse_first_offending)
  qed
  have many: "l \<in> set (split_lines stdout) \<longrightarrow>
            (\<exists>bad\<in>set (split_lines stdout). snd (parse h stdout) = Inl (invalid_line_error bad))"
  proof
    assume "l \<in> set (split_lines stdout)"
    with off have "\<exists>x\<in>set (split_lines stdout). offending x" by blast
    then obtain pre bad post where sp: "split_lines stdout = pre @ bad # post"
      and bad: "offending bad" and pre: "\<forall>x\<in>set pre. \<not> offending x"
      using split_list_first_prop[of "split_lines stdout" offending] by blast
    have "snd (parse h stdout) = Inl (invalid_line_error bad)"
      using sp pre bad by (rule parse_first_offending)
    with sp show "\<exists>bad\<in>set (split_lines stdout). snd (parse h stdout) = Inl (invalid_line_error bad)"
      by auto
  qed
  show ?thesis using pl assms(1) single many by simp
qed

theorem C10_witness:
  "parse_line (js ''   '') = None \<and>
   snd (parse [] (js ''   '')) = Inl (invalid_line_error (js ''   '')) \<and>
   parse_loop [Nil] 0 [Nil] = ([Nil], None)"
proof -
  have 1: "js ''   '' \<noteq> []" by code_simp
  have 2: "list_all is_white_space (js ''   '')" by code_simp
  have 3: "newline \<notin> set (js ''   '')" by code_simp
  from C10_whitespace_line_throws[OF 1 2, of "[]" 0 "[]"] 3
  have "parse_line (js ''   '') = None" "snd (parse [] (js ''   '')) = Inl (invalid_line_error (js ''   ''))"
    by simp_all
  moreover from C10_whitespace_line_throws[OF 1 2, of "[Nil]" 0 "[]"]
  have "parse_loop [Nil] 0 [Nil] = ([Nil], None)" by simp
  ultimately show ?thesis by simp
qed

end
